theory Spec2Isabelle
  imports Main
begin

section \<open>C strings\<close>

text \<open>
  A \<^verbatim>\<open>char*\<close> value that is not NULL is modelled by the block it points to: the
  address of the block and the bytes of the NUL-terminated string stored there (without
  the terminator). NULL is \<open>None\<close>. The address is what distinguishes a string from a
  copy of it.
\<close>

record cstr =
  addr :: nat
  bytes :: string

text \<open>
  \<^verbatim>\<open>strdup(s)\<close>: allocates a block and copies the bytes of \<open>s\<close> into it. The first
  argument is what the allocator returns inside \<^verbatim>\<open>strdup\<close>: \<open>None\<close> when it fails
  (then \<^verbatim>\<open>strdup\<close> returns NULL), \<open>Some a\<close> for a block at address \<open>a\<close>.
\<close>

definition strdup :: "nat option \<Rightarrow> cstr \<Rightarrow> cstr option" where
  "strdup m s = (case m of None \<Rightarrow> None | Some a \<Rightarrow> Some \<lparr>addr = a, bytes = bytes s\<rparr>)"

section \<open>The bounded queue (queue.h, queue.c)\<close>

text \<open>Return codes of queue.h.\<close>

definition QUEUE_SUCCESS :: int where "QUEUE_SUCCESS = 0"
definition QUEUE_ERROR :: int where "QUEUE_ERROR = - 1"
definition QUEUE_SHUTDOWN :: int where "QUEUE_SHUTDOWN = - 2"

text \<open>
  \<^verbatim>\<open>queue_t\<close>. The slot array \<^verbatim>\<open>char** buffer\<close> is a list of \<^verbatim>\<open>char*\<close> values; the
  \<^verbatim>\<open>size_t\<close> fields are natural numbers (an index is below the capacity and the size is
  at most the capacity, so \<^verbatim>\<open>tail + 1\<close> and \<^verbatim>\<open>size++\<close> never wrap). The mutex and the
  two condition variables carry no data: every function below is the critical section
  the mutex protects, run atomically.
\<close>

record queue =
  buffer :: "cstr option list"
  capacity :: nat
  size :: nat
  head :: nat
  tail :: nat
  shutdown :: bool

text \<open>
  What a call has done when its critical section is left: it has returned a code, or the
  caller is parked in \<^verbatim>\<open>pthread_cond_wait\<close> (the queue is then unchanged, and the
  caller tests the loop condition again when it is woken).
\<close>

datatype status = Ret int | Wait

text \<open>
  \<^verbatim>\<open>queue_init\<close>. The four flags are the outcomes of \<^verbatim>\<open>calloc\<close>,
  \<^verbatim>\<open>pthread_mutex_init\<close> and the two \<^verbatim>\<open>pthread_cond_init\<close> calls. The handle is not
  NULL (the record is the struct behind it); on failure no usable queue exists.
\<close>

definition queue_init :: "nat \<Rightarrow> bool \<Rightarrow> bool \<Rightarrow> bool \<Rightarrow> bool \<Rightarrow> int \<times> queue option" where
  "queue_init cap calloc_ok mutex_ok not_full_ok not_empty_ok =
     (if cap = 0 then (- 1, None)
      else if \<not> calloc_ok then (- 1, None)
      else if \<not> mutex_ok then (- 1, None)
      else if \<not> not_full_ok then (- 1, None)
      else if \<not> not_empty_ok then (- 1, None)
      else (0, Some \<lparr>buffer = replicate cap None, capacity = cap, size = 0,
                      head = 0, tail = 0, shutdown = False\<rparr>))"

text \<open>
  \<^verbatim>\<open>queue_push\<close> from the \<^verbatim>\<open>while\<close> loop on (line 101): this is where a pusher that
  was parked on \<^verbatim>\<open>not_full\<close> continues when it is woken. \<open>m\<close> is the allocator's
  answer inside \<^verbatim>\<open>strdup\<close>.
\<close>

definition queue_push_resume :: "queue \<Rightarrow> cstr \<Rightarrow> nat option \<Rightarrow> status \<times> queue" where
  "queue_push_resume q str m =
     (if size q \<ge> capacity q \<and> \<not> shutdown q then (Wait, q)
      else if shutdown q then (Ret QUEUE_SHUTDOWN, q)
      else (case strdup m str of
              None \<Rightarrow> (Ret (- 1), q)
            | Some str_copy \<Rightarrow>
                (Ret 0, q\<lparr>buffer := (buffer q)[tail q := Some str_copy],
                          tail := (tail q + 1) mod capacity q,
                          size := size q + 1\<rparr>)))"

text \<open>\<^verbatim>\<open>queue_push\<close> from its entry; a NULL \<^verbatim>\<open>str\<close> is \<open>None\<close>.\<close>

definition queue_push :: "queue \<Rightarrow> cstr option \<Rightarrow> nat option \<Rightarrow> status \<times> queue" where
  "queue_push q str m =
     (case str of
        None \<Rightarrow> (Ret (- 1), q)
      | Some s \<Rightarrow>
          if shutdown q then (Ret QUEUE_SHUTDOWN, q)
          else queue_push_resume q s m)"

text \<open>
  \<^verbatim>\<open>queue_pop\<close>: the code returned (or \<open>Wait\<close>), the value stored in \<^verbatim>\<open>*out_str\<close>
  (nothing is stored while the caller waits) and the queue. A popper woken from
  \<^verbatim>\<open>not_empty\<close> continues at the loop test, which is the start of the critical section,
  so the same function describes it.
\<close>

definition queue_pop :: "queue \<Rightarrow> status \<times> cstr option \<times> queue" where
  "queue_pop q =
     (if size q = 0 \<and> \<not> shutdown q then (Wait, None, q)
      else if shutdown q \<and> size q = 0 then (Ret QUEUE_SHUTDOWN, None, q)
      else (Ret 0, buffer q ! head q,
            q\<lparr>buffer := (buffer q)[head q := None],
              head := (head q + 1) mod capacity q,
              size := size q - 1\<rparr>))"

text \<open>\<^verbatim>\<open>queue_shutdown\<close>: sets the flag; the two broadcasts wake every parked caller.\<close>

definition queue_shutdown :: "queue \<Rightarrow> int \<times> queue" where
  "queue_shutdown q = (0, q\<lparr>shutdown := True\<rparr>)"

definition queue_is_full :: "queue \<Rightarrow> bool" where
  "queue_is_full q = (size q \<ge> capacity q \<and> \<not> shutdown q)"

definition queue_is_empty :: "queue \<Rightarrow> bool" where
  "queue_is_empty q = (size q = 0)"

definition queue_size :: "queue \<Rightarrow> nat" where
  "queue_size q = size q"

subsection \<open>The ring as a list\<close>

text \<open>The occupied slots, oldest first: \<open>size\<close> slots starting at \<open>head\<close>, wrapping.\<close>

definition slots :: "queue \<Rightarrow> cstr option list" where
  "slots q = map (\<lambda>i. buffer q ! ((head q + i) mod capacity q)) [0..<size q]"

definition items :: "queue \<Rightarrow> cstr list" where
  "items q = map the (slots q)"

text \<open>
  The representation invariant of the ring: the array has \<open>capacity\<close> slots, the indices
  are in range, \<open>tail\<close> is \<open>size\<close> slots after \<open>head\<close>, and no occupied slot is NULL.
\<close>

definition queue_inv :: "queue \<Rightarrow> bool" where
  "queue_inv q =
     (0 < capacity q \<and> length (buffer q) = capacity q \<and> size q \<le> capacity q \<and>
      head q < capacity q \<and> tail q = (head q + size q) mod capacity q \<and>
      None \<notin> set (slots q))"

text \<open>A number of consecutive pops by one consumer: the codes and strings it gets.\<close>

fun pops :: "nat \<Rightarrow> queue \<Rightarrow> (status \<times> cstr option) list \<times> queue" where
  "pops 0 q = ([], q)"
| "pops (Suc n) q =
     (case queue_pop q of (r, out, q') \<Rightarrow>
        (case pops n q' of (rs, q'') \<Rightarrow> ((r, out) # rs, q'')))"

subsection \<open>Schedules of queue calls\<close>

text \<open>
  The calls that threads make on one queue, in the order in which their critical sections
  run. \<open>Push s m\<close> is a pusher holding \<open>s\<close> that enters \<^verbatim>\<open>queue_push\<close> or is woken inside
  it (\<open>m\<close> is the allocator's answer if \<^verbatim>\<open>strdup\<close> is reached), \<open>Pop\<close> a popper that
  enters \<^verbatim>\<open>queue_pop\<close> or is woken inside it, \<open>Close\<close> a call of \<^verbatim>\<open>queue_shutdown\<close>.
\<close>

datatype qop = Push cstr "nat option" | Pop | Close

datatype qobs = Pushed status | Popped status "cstr option" | Closed int

fun queue_step :: "queue \<Rightarrow> qop \<Rightarrow> qobs \<times> queue" where
  "queue_step q (Push s m) = (case queue_push q (Some s) m of (r, q') \<Rightarrow> (Pushed r, q'))"
| "queue_step q Pop = (case queue_pop q of (r, out, q') \<Rightarrow> (Popped r out, q'))"
| "queue_step q Close = (case queue_shutdown q of (r, q') \<Rightarrow> (Closed r, q'))"

fun queue_run :: "queue \<Rightarrow> qop list \<Rightarrow> qobs list \<times> queue" where
  "queue_run q [] = ([], q)"
| "queue_run q (x # xs) =
     (case queue_step q x of (ob, q') \<Rightarrow>
        (case queue_run q' xs of (obs, q'') \<Rightarrow> (ob # obs, q'')))"

text \<open>The bytes handed to the pushes that returned 0, and the strings the pops that
  returned 0 delivered, each in call order.\<close>

fun pushed_ok :: "qop list \<Rightarrow> qobs list \<Rightarrow> string list" where
  "pushed_ok (Push s m # xs) (Pushed (Ret r) # obs) =
     (if r = 0 then bytes s # pushed_ok xs obs else pushed_ok xs obs)"
| "pushed_ok (x # xs) (ob # obs) = pushed_ok xs obs"
| "pushed_ok _ _ = []"

fun popped_ok :: "qobs list \<Rightarrow> cstr list" where
  "popped_ok [] = []"
| "popped_ok (Popped (Ret r) (Some x) # obs) =
     (if r = 0 then x # popped_ok obs else popped_ok obs)"
| "popped_ok (ob # obs) = popped_ok obs"

subsection \<open>The buffer of the specification\<close>

text \<open>
  The bounded FIFO as the specification words it: an ordered sequence of items of length
  at most \<open>C\<close> and a closed flag. \<open>fifo_push\<close> is given the string the buffer keeps
  (\<open>None\<close> when copying it failed for lack of memory, which leaves the state unchanged).
\<close>

record fifo =
  fitems :: "cstr list"
  fcap :: nat
  fclosed :: bool

definition fifo_push :: "fifo \<Rightarrow> cstr option \<Rightarrow> status \<times> fifo" where
  "fifo_push f x =
     (if fclosed f then (Ret QUEUE_SHUTDOWN, f)
      else if length (fitems f) = fcap f then (Wait, f)
      else (case x of None \<Rightarrow> (Ret (- 1), f)
            | Some y \<Rightarrow> (Ret 0, f\<lparr>fitems := fitems f @ [y]\<rparr>)))"

definition fifo_pop :: "fifo \<Rightarrow> status \<times> cstr option \<times> fifo" where
  "fifo_pop f =
     (case fitems f of
        [] \<Rightarrow> if fclosed f then (Ret QUEUE_SHUTDOWN, None, f) else (Wait, None, f)
      | y # ys \<Rightarrow> (Ret 0, Some y, f\<lparr>fitems := ys\<rparr>))"

definition fifo_close :: "fifo \<Rightarrow> int \<times> fifo" where
  "fifo_close f = (0, f\<lparr>fclosed := True\<rparr>)"

fun fifo_step :: "fifo \<Rightarrow> qop \<Rightarrow> qobs \<times> fifo" where
  "fifo_step f (Push s m) = (case fifo_push f (strdup m s) of (r, f') \<Rightarrow> (Pushed r, f'))"
| "fifo_step f Pop = (case fifo_pop f of (r, out, f') \<Rightarrow> (Popped r out, f'))"
| "fifo_step f Close = (case fifo_close f of (r, f') \<Rightarrow> (Closed r, f'))"

fun fifo_run :: "fifo \<Rightarrow> qop list \<Rightarrow> qobs list \<times> fifo" where
  "fifo_run f [] = ([], f)"
| "fifo_run f (x # xs) =
     (case fifo_step f x of (ob, f') \<Rightarrow>
        (case fifo_run f' xs of (obs, f'') \<Rightarrow> (ob # obs, f'')))"

text \<open>The buffer a ring stands for.\<close>

definition abs_fifo :: "queue \<Rightarrow> fifo" where
  "abs_fifo q = \<lparr>fitems = items q, fcap = capacity q, fclosed = shutdown q\<rparr>"

subsection \<open>Facts about the ring\<close>

lemma ring_inj_le:
  fixes h c i j :: nat
  assumes "i \<le> j" "j < c" "(h + i) mod c = (h + j) mod c"
  shows "i = j"
proof (rule ccontr)
  assume "i \<noteq> j"
  with assms have pos: "0 < j - i" and lt: "j - i < c" by arith+
  from assms have "(h + j) mod c = (h + i) mod c" by simp
  with assms(1) have "c dvd (h + j) - (h + i)"
    by (simp add: mod_eq_dvd_iff_nat)
  then have "c dvd j - i" by simp
  with pos lt show False by (simp add: nat_dvd_not_less)
qed

lemma ring_inj:
  fixes h c i j :: nat
  assumes "i < c" "j < c" "(h + i) mod c = (h + j) mod c"
  shows "i = j"
proof (cases "i \<le> j")
  case True
  with assms show ?thesis by (rule_tac ring_inj_le) auto
next
  case False
  then have "j \<le> i" by simp
  from ring_inj_le [OF this assms(1) assms(3) [symmetric]] show ?thesis by simp
qed

lemma length_slots: "length (slots q) = size q"
  by (simp add: slots_def)

lemma slots_enqueue:
  assumes "queue_inv q" "size q < capacity q"
  shows "slots (q\<lparr>buffer := (buffer q)[tail q := x], tail := (tail q + 1) mod capacity q,
                    size := size q + 1\<rparr>) = slots q @ [x]"
proof -
  let ?c = "capacity q"
  from assms have c: "0 < ?c" and len: "length (buffer q) = ?c"
    and t: "tail q = (head q + size q) mod ?c"
    by (simp_all add: queue_inv_def)
  have old: "(buffer q)[tail q := x] ! ((head q + i) mod ?c) = buffer q ! ((head q + i) mod ?c)"
    if "i < size q" for i
  proof -
    have "(head q + i) mod ?c \<noteq> (head q + size q) mod ?c"
      using ring_inj [of i ?c "size q" "head q"] that assms(2) by auto
    then show ?thesis by (simp add: t)
  qed
  have new: "(buffer q)[tail q := x] ! ((head q + size q) mod ?c) = x"
    using c len by (simp add: t)
  show ?thesis
    by (simp add: slots_def old new)
qed

lemma slots_dequeue:
  assumes "queue_inv q" "0 < size q"
  shows "slots (q\<lparr>buffer := (buffer q)[head q := x], head := (head q + 1) mod capacity q,
                    size := size q - 1\<rparr>) = tl (slots q)"
    and "buffer q ! head q = hd (slots q)"
proof -
  let ?c = "capacity q"
  from assms have c: "0 < ?c" and len: "length (buffer q) = ?c" and h: "head q < ?c"
    and s: "size q \<le> ?c"
    by (simp_all add: queue_inv_def)
  have idx: "(Suc (head q) mod ?c + i) mod ?c = Suc (head q + i) mod ?c" for i
    by (simp add: mod_add_left_eq)
  have old: "(buffer q)[head q := x] ! (Suc (head q + i) mod ?c) = buffer q ! (Suc (head q + i) mod ?c)"
    if "i < size q - Suc 0" for i
  proof -
    from that s have "Suc i < ?c" by arith
    then have "(head q + Suc i) mod ?c \<noteq> (head q + 0) mod ?c"
      using ring_inj [of "Suc i" ?c 0 "head q"] c by auto
    with h show ?thesis by simp
  qed
  have A: "slots (q\<lparr>buffer := (buffer q)[head q := x], head := (head q + 1) mod ?c,
                    size := size q - 1\<rparr>)
        = map (\<lambda>i. buffer q ! ((head q + Suc i) mod ?c)) [0..<size q - 1]"
    by (simp add: slots_def idx old del: upt_Suc)
  have "[Suc 0..<size q] = map Suc [0..<size q - 1]"
    using assms(2) by (simp add: map_Suc_upt)
  then have B: "map (\<lambda>i. buffer q ! ((head q + i) mod ?c)) [Suc 0..<size q]
        = map (\<lambda>i. buffer q ! ((head q + Suc i) mod ?c)) [0..<size q - 1]"
    by (simp only: map_map comp_def)
  have C: "tl (slots q) = map (\<lambda>i. buffer q ! ((head q + i) mod ?c)) [Suc 0..<size q]"
    by (simp add: slots_def map_tl [symmetric])
  from A B C show "slots (q\<lparr>buffer := (buffer q)[head q := x], head := (head q + 1) mod capacity q,
                    size := size q - 1\<rparr>) = tl (slots q)"
    by simp
  show "buffer q ! head q = hd (slots q)"
    using assms(2) h by (simp add: slots_def hd_map upt_conv_Cons)
qed

lemma length_items: "length (items q) = size q"
  by (simp add: items_def length_slots)

lemma queue_push_resume_eq: "queue_push q (Some s) m = queue_push_resume q s m"
  by (simp add: queue_push_def queue_push_resume_def)

lemma queue_init_ok:
  assumes "queue_init cap a b c d = (r, Some q)"
  shows "r = 0 \<and> 0 < cap \<and> capacity q = cap \<and> size q = 0 \<and> \<not> shutdown q \<and> queue_inv q \<and> items q = []"
  using assms
  by (auto simp: queue_init_def queue_inv_def slots_def items_def split: if_splits)

lemma push_waits:
  "size q \<ge> capacity q \<Longrightarrow> \<not> shutdown q \<Longrightarrow> queue_push_resume q s m = (Wait, q)"
  by (simp add: queue_push_resume_def)

lemma push_closed:
  "shutdown q \<Longrightarrow> queue_push_resume q s m = (Ret QUEUE_SHUTDOWN, q)"
  by (simp add: queue_push_resume_def)

lemma push_nomem:
  "size q < capacity q \<Longrightarrow> \<not> shutdown q \<Longrightarrow> queue_push_resume q s None = (Ret (- 1), q)"
  by (simp add: queue_push_resume_def strdup_def)

lemma push_enqueues:
  assumes "queue_inv q" "size q < capacity q" "\<not> shutdown q"
    and "queue_push_resume q s (Some a) = (r, q')"
  shows "r = Ret 0" and "slots q' = slots q @ [Some \<lparr>addr = a, bytes = bytes s\<rparr>]"
    and "queue_inv q'" and "capacity q' = capacity q" and "shutdown q' = shutdown q"
    and "size q' = Suc (size q)"
proof -
  let ?x = "Some \<lparr>addr = a, bytes = bytes s\<rparr>"
  from assms have q': "q' = q\<lparr>buffer := (buffer q)[tail q := ?x],
      tail := (tail q + 1) mod capacity q, size := size q + 1\<rparr>" and r: "r = Ret 0"
    by (simp_all add: queue_push_resume_def strdup_def)
  show "r = Ret 0" by (rule r)
  show sl: "slots q' = slots q @ [?x]"
    unfolding q' by (rule slots_enqueue [OF assms(1,2)])
  show "capacity q' = capacity q" "shutdown q' = shutdown q" "size q' = Suc (size q)"
    by (simp_all add: q')
  from assms(1) have "tail q = (head q + size q) mod capacity q"
    by (simp add: queue_inv_def)
  then have "(tail q + 1) mod capacity q = (head q + (size q + 1)) mod capacity q"
    by (simp add: mod_Suc_eq)
  with assms(1,2) sl show "queue_inv q'"
    by (simp add: queue_inv_def) (simp add: q')
qed

lemma pop_waits: "size q = 0 \<Longrightarrow> \<not> shutdown q \<Longrightarrow> queue_pop q = (Wait, None, q)"
  by (simp add: queue_pop_def)

lemma pop_end: "size q = 0 \<Longrightarrow> shutdown q \<Longrightarrow> queue_pop q = (Ret QUEUE_SHUTDOWN, None, q)"
  by (simp add: queue_pop_def)

lemma pop_dequeues:
  assumes "queue_inv q" "0 < size q" "queue_pop q = (r, out, q')"
  shows "r = Ret 0" and "out = Some (hd (items q))" and "slots q' = tl (slots q)"
    and "items q' = tl (items q)"
    and "queue_inv q'" and "capacity q' = capacity q" and "shutdown q' = shutdown q"
    and "size q' = size q - 1"
proof -
  from assms have q': "q' = q\<lparr>buffer := (buffer q)[head q := None],
      head := (head q + 1) mod capacity q, size := size q - 1\<rparr>"
    and r: "r = Ret 0" and out: "out = buffer q ! head q"
    by (simp_all add: queue_pop_def)
  show "r = Ret 0" by (rule r)
  have ne: "slots q \<noteq> []" using assms(2) length_slots [of q] by auto
  from assms(1) have nn: "None \<notin> set (slots q)" by (simp add: queue_inv_def)
  with ne have "hd (slots q) \<noteq> None" by (metis hd_in_set)
  then show "out = Some (hd (items q))"
    using ne by (auto simp: out slots_dequeue(2) [OF assms(1,2)] items_def hd_map)
  show sl: "slots q' = tl (slots q)"
    unfolding q' by (rule slots_dequeue(1) [OF assms(1,2)])
  then show "items q' = tl (items q)" by (simp add: items_def map_tl)
  show "capacity q' = capacity q" "shutdown q' = shutdown q" "size q' = size q - 1"
    by (simp_all add: q')
  from nn ne have nn': "None \<notin> set (tl (slots q))"
    by (metis list.set_sel(2))
  obtain n where n: "size q = Suc n" using assms(2) by (cases "size q") auto
  have "((head q + 1) mod capacity q + n) mod capacity q = (head q + 1 + n) mod capacity q"
    by (rule mod_add_left_eq)
  then have "((head q + 1) mod capacity q + (size q - 1)) mod capacity q
        = (head q + size q) mod capacity q"
    by (simp add: n)
  with assms(1) nn' sl show "queue_inv q'"
    unfolding queue_inv_def by (auto simp: q')
qed

lemma shutdown_keeps:
  "slots (snd (queue_shutdown q)) = slots q" "items (snd (queue_shutdown q)) = items q"
  "queue_inv (snd (queue_shutdown q)) = queue_inv q" "shutdown (snd (queue_shutdown q))"
  "size (snd (queue_shutdown q)) = size q" "capacity (snd (queue_shutdown q)) = capacity q"
  by (simp_all add: queue_shutdown_def slots_def items_def queue_inv_def)

lemma pops_split: "fst (pops (n + k) q) = fst (pops n q) @ fst (pops k (snd (pops n q)))"
  "snd (pops (n + k) q) = snd (pops k (snd (pops n q)))"
  by (induction n arbitrary: q) (simp_all add: split_beta)

lemma pops_take:
  assumes "queue_inv q" "n \<le> size q"
  shows "fst (pops n q) = map (\<lambda>x. (Ret 0, Some x)) (take n (items q)) \<and>
         items (snd (pops n q)) = drop n (items q) \<and> queue_inv (snd (pops n q)) \<and>
         shutdown (snd (pops n q)) = shutdown q \<and> size (snd (pops n q)) = size q - n"
  using assms
proof (induction n arbitrary: q)
  case 0
  then show ?case by simp
next
  case (Suc n)
  obtain r out q' where p: "queue_pop q = (r, out, q')" by (cases "queue_pop q") auto
  from Suc.prems have pos: "0 < size q" by simp
  note d = pop_dequeues [OF Suc.prems(1) pos p]
  from Suc.prems d have "n \<le> size q'" by simp
  from Suc.IH [OF d(5) this] d pos length_items [of q]
  show ?case
    by (cases "items q") (auto simp: p split: prod.splits)
qed

lemma run_keeps_capacity:
  "size q \<le> capacity q \<Longrightarrow>
     size (snd (queue_run q ops)) \<le> capacity q \<and> capacity (snd (queue_run q ops)) = capacity q"
proof (induction ops arbitrary: q)
  case Nil
  then show ?case by simp
next
  case (Cons x xs)
  obtain ob q' where s: "queue_step q x = (ob, q')" by (cases "queue_step q x") auto
  with Cons.prems have "size q' \<le> capacity q' \<and> capacity q' = capacity q"
    by (cases x)
      (auto simp: queue_push_def queue_push_resume_def queue_pop_def queue_shutdown_def
        split: if_splits option.splits)
  with Cons.IH [of q'] s show ?case by (auto split: prod.splits)
qed

lemma run_keeps_shutdown: "shutdown q \<Longrightarrow> shutdown (snd (queue_run q ops))"
proof (induction ops arbitrary: q)
  case Nil
  then show ?case by simp
next
  case (Cons x xs)
  obtain ob q' where s: "queue_step q x = (ob, q')" by (cases "queue_step q x") auto
  with Cons.prems have "shutdown q'"
    by (cases x)
      (auto simp: queue_push_def queue_push_resume_def queue_pop_def queue_shutdown_def
        split: if_splits option.splits)
  with Cons.IH [of q'] s show ?case by (auto split: prod.splits)
qed


lemma push_step:
  assumes "queue_inv q" "queue_push q (Some s) m = (r, q')"
  shows "fifo_push (abs_fifo q) (strdup m s) = (r, abs_fifo q')" and "queue_inv q'"
    and "r = Ret 0 \<Longrightarrow> \<exists>a. m = Some a \<and> items q' = items q @ [\<lparr>addr = a, bytes = bytes s\<rparr>]"
    and "r \<noteq> Ret 0 \<Longrightarrow> q' = q"
proof -
  from assms(2) have res: "queue_push_resume q s m = (r, q')"
    by (simp add: queue_push_resume_eq)
  from assms(1) have le: "size q \<le> capacity q" by (simp add: queue_inv_def)
  consider (closed) "shutdown q" | (full) "\<not> shutdown q" "size q = capacity q"
    | (nomem) "\<not> shutdown q" "size q < capacity q" "m = None"
    | (ok) a where "\<not> shutdown q" "size q < capacity q" "m = Some a"
    using le by (cases m) force+
  then have "fifo_push (abs_fifo q) (strdup m s) = (r, abs_fifo q') \<and> queue_inv q' \<and>
     (r = Ret 0 \<longrightarrow> (\<exists>a. m = Some a \<and> items q' = items q @ [\<lparr>addr = a, bytes = bytes s\<rparr>])) \<and>
     (r \<noteq> Ret 0 \<longrightarrow> q' = q)"
  proof cases
    case closed
    with res assms(1) show ?thesis
      by (auto simp: push_closed fifo_push_def abs_fifo_def QUEUE_SHUTDOWN_def)
  next
    case full
    with res assms(1) show ?thesis
      by (auto simp: push_waits fifo_push_def abs_fifo_def length_items)
  next
    case nomem
    with res assms(1) show ?thesis
      by (auto simp: push_nomem fifo_push_def abs_fifo_def length_items strdup_def)
  next
    case ok
    note e = push_enqueues [OF assms(1) ok(2) ok(1) res [unfolded ok(3)]]
    have it: "items q' = items q @ [\<lparr>addr = a, bytes = bytes s\<rparr>]"
      by (simp add: items_def e(2))
    from e(1,3,4,5) ok it show ?thesis
      by (simp add: fifo_push_def abs_fifo_def length_items strdup_def)
  qed
  then show "fifo_push (abs_fifo q) (strdup m s) = (r, abs_fifo q')" "queue_inv q'"
    "r = Ret 0 \<Longrightarrow> \<exists>a. m = Some a \<and> items q' = items q @ [\<lparr>addr = a, bytes = bytes s\<rparr>]"
    "r \<noteq> Ret 0 \<Longrightarrow> q' = q"
    by blast+
qed

lemma pop_step:
  assumes "queue_inv q" "queue_pop q = (r, out, q')"
  shows "fifo_pop (abs_fifo q) = (r, out, abs_fifo q')" and "queue_inv q'"
    and "r = Ret 0 \<Longrightarrow> \<exists>x. out = Some x \<and> items q = x # items q'"
    and "r \<noteq> Ret 0 \<Longrightarrow> q' = q \<and> out = None"
proof -
  have "fifo_pop (abs_fifo q) = (r, out, abs_fifo q') \<and> queue_inv q' \<and>
     (r = Ret 0 \<longrightarrow> (\<exists>x. out = Some x \<and> items q = x # items q')) \<and>
     (r \<noteq> Ret 0 \<longrightarrow> q' = q \<and> out = None)"
  proof (cases "size q = 0")
    case True
    then have "items q = []" using length_items [of q] by simp
    with True assms show ?thesis
      by (cases "shutdown q")
        (auto simp: pop_end pop_waits fifo_pop_def abs_fifo_def QUEUE_SHUTDOWN_def)
  next
    case False
    then have pos: "0 < size q" by simp
    note d = pop_dequeues [OF assms(1) pos assms(2)]
    from pos obtain x xs where xs: "items q = x # xs"
      using length_items [of q] by (cases "items q") auto
    with d show ?thesis
      by (simp add: fifo_pop_def abs_fifo_def)
  qed
  then show "fifo_pop (abs_fifo q) = (r, out, abs_fifo q')" "queue_inv q'"
    "r = Ret 0 \<Longrightarrow> \<exists>x. out = Some x \<and> items q = x # items q'"
    "r \<noteq> Ret 0 \<Longrightarrow> q' = q \<and> out = None"
    by blast+
qed

lemma close_step:
  "fifo_close (abs_fifo q) = (fst (queue_shutdown q), abs_fifo (snd (queue_shutdown q)))"
  by (simp add: fifo_close_def abs_fifo_def queue_shutdown_def items_def slots_def)

lemma queue_step_refines:
  assumes "queue_inv q" "queue_step q x = (ob, q')"
  shows "fifo_step (abs_fifo q) x = (ob, abs_fifo q')" and "queue_inv q'"
    and "map bytes (popped_ok [ob]) @ map bytes (items q') = map bytes (items q) @ pushed_ok [x] [ob]"
proof -
  have "fifo_step (abs_fifo q) x = (ob, abs_fifo q') \<and> queue_inv q' \<and>
    map bytes (popped_ok [ob]) @ map bytes (items q') = map bytes (items q) @ pushed_ok [x] [ob]"
  proof (cases x)
    case (Push s m)
    obtain r where r: "queue_push q (Some s) m = (r, q')" "ob = Pushed r"
      using assms(2) Push by (cases "queue_push q (Some s) m") auto
    note p = push_step [OF assms(1) r(1)]
    show ?thesis
    proof (cases "r = Ret 0")
      case True
      with p(3) obtain a where "items q' = items q @ [\<lparr>addr = a, bytes = bytes s\<rparr>]" by blast
      with p(1,2) True r(2) Push show ?thesis by simp
    next
      case False
      with p(4) have "q' = q" by simp
      with p(1,2) False r(2) Push show ?thesis by (cases r) auto
    qed
  next
    case Pop
    obtain r out where r: "queue_pop q = (r, out, q')" "ob = Popped r out"
      using assms(2) Pop by (cases "queue_pop q") auto
    note p = pop_step [OF assms(1) r(1)]
    show ?thesis
    proof (cases "r = Ret 0")
      case True
      with p(3) obtain x where "out = Some x" "items q = x # items q'" by blast
      with p(1,2) True r(2) Pop show ?thesis by simp
    next
      case False
      with p(4) have "q' = q" "out = None" by simp_all
      with p(1,2) False r(2) Pop show ?thesis by (cases r) auto
    qed
  next
    case Close
    with assms show ?thesis
      using close_step [of q] shutdown_keeps [of q]
      by (auto simp: split_beta)
  qed
  then show "fifo_step (abs_fifo q) x = (ob, abs_fifo q')" "queue_inv q'"
    "map bytes (popped_ok [ob]) @ map bytes (items q') = map bytes (items q) @ pushed_ok [x] [ob]"
    by blast+
qed

lemma popped_ok_Cons: "popped_ok (ob # obs) = popped_ok [ob] @ popped_ok obs"
  by (induction "[ob]" arbitrary: ob rule: popped_ok.induct) auto

lemma pushed_ok_Cons: "pushed_ok (x # xs) (ob # obs) = pushed_ok [x] [ob] @ pushed_ok xs obs"
  by (cases "(x # xs, ob # obs)" rule: pushed_ok.cases) auto


subsection \<open>The queue claims\<close>

text \<open>A ring of capacity 3 that holds two strings across the wrap-around, and a fresh
  ring of capacity 2, for the concrete instances below.\<close>

definition wrapped_queue :: queue where
  "wrapped_queue =
     \<lparr>buffer = [Some \<lparr>addr = 12, bytes = ''two''\<rparr>, None, Some \<lparr>addr = 11, bytes = ''one''\<rparr>],
      capacity = 3, size = 2, head = 2, tail = 1, shutdown = False\<rparr>"

definition fresh_queue :: queue where
  "fresh_queue = \<lparr>buffer = [None, None], capacity = 2, size = 0, head = 0, tail = 0,
                   shutdown = False\<rparr>"

lemma wrapped_queue_inv: "queue_inv wrapped_queue"
  by (simp add: wrapped_queue_def queue_inv_def slots_def upt_rec)

lemma wrapped_queue_items:
  "items wrapped_queue = [\<lparr>addr = 11, bytes = ''one''\<rparr>, \<lparr>addr = 12, bytes = ''two''\<rparr>]"
  by (simp add: wrapped_queue_def items_def slots_def upt_rec)

lemma fresh_queue_init: "queue_init 2 True True True True = (0, Some fresh_queue)"
  by (simp add: queue_init_def fresh_queue_def numeral_2_eq_2)

lemma fresh_queue_inv: "queue_inv fresh_queue"
  using queue_init_ok [OF fresh_queue_init] by simp

text \<open>
  Claim C1 (post-close drain). For every queue that holds \<open>m\<close> items when
  \<^verbatim>\<open>queue_shutdown\<close> is called, the next \<open>m\<close> pops return 0 and exactly those items,
  oldest first, and pop \<open>m + 1\<close> returns \<^verbatim>\<open>QUEUE_SHUTDOWN\<close> with a NULL string;
  \<^verbatim>\<open>queue_shutdown\<close> itself removes nothing.
\<close>

theorem post_close_drain:
  assumes "queue_inv q"
  shows "fst (pops (Suc (size q)) (snd (queue_shutdown q)))
           = map (\<lambda>x. (Ret 0, Some x)) (items q) @ [(Ret QUEUE_SHUTDOWN, None)] \<and>
         items (snd (queue_shutdown q)) = items q \<and>
         size (snd (queue_shutdown q)) = size q"
proof -
  let ?q = "snd (queue_shutdown q)"
  have inv: "queue_inv ?q" and sz: "size ?q = size q" and it: "items ?q = items q"
    and sh: "shutdown ?q"
    using assms by (simp_all add: shutdown_keeps)
  note t = pops_take [OF inv, of "size q", unfolded sz it, simplified]
  let ?e = "snd (pops (size q) ?q)"
  from t sh have "size ?e = 0" "shutdown ?e" by simp_all
  then have "fst (pops 1 ?e) = [(Ret QUEUE_SHUTDOWN, None)]"
    by (simp add: pop_end)
  moreover have "fst (pops (size q) ?q) = map (\<lambda>x. (Ret 0, Some x)) (items q)"
    using t length_items [of q] by simp
  ultimately have "fst (pops (size q + 1) ?q)
      = map (\<lambda>x. (Ret 0, Some x)) (items q) @ [(Ret QUEUE_SHUTDOWN, None)]"
    by (simp only: pops_split)
  with sz it show ?thesis by simp
qed

theorem post_close_drain_witness:
  "queue_inv wrapped_queue \<and>
   fst (pops 3 (snd (queue_shutdown wrapped_queue)))
     = [(Ret 0, Some \<lparr>addr = 11, bytes = ''one''\<rparr>), (Ret 0, Some \<lparr>addr = 12, bytes = ''two''\<rparr>),
        (Ret QUEUE_SHUTDOWN, None)] \<and>
   size (snd (queue_shutdown wrapped_queue)) = 2"
proof -
  have "size wrapped_queue = 2" by (simp add: wrapped_queue_def)
  with post_close_drain [OF wrapped_queue_inv] wrapped_queue_inv wrapped_queue_items
  show ?thesis by (simp add: numeral_3_eq_3)
qed

text \<open>
  Claim C4 (close rejects pushes). If the queue is shut down when \<^verbatim>\<open>queue_push\<close> is
  entered, or when a pusher that was parked on a full queue is woken, the call returns
  \<^verbatim>\<open>QUEUE_SHUTDOWN\<close> and the queue (slots, size, head, tail) is unchanged; once the flag
  is set this holds after any further calls on the queue.
\<close>

theorem push_on_closed_queue:
  assumes "shutdown q"
  shows "queue_push q (Some s) m = (Ret QUEUE_SHUTDOWN, q) \<and>
         queue_push_resume q s m = (Ret QUEUE_SHUTDOWN, q) \<and>
         queue_push (snd (queue_run q ops)) (Some s) m
           = (Ret QUEUE_SHUTDOWN, snd (queue_run q ops)) \<and>
         queue_push_resume (snd (queue_run q ops)) s m
           = (Ret QUEUE_SHUTDOWN, snd (queue_run q ops))"
  using assms run_keeps_shutdown [OF assms, of ops]
  by (simp add: queue_push_def queue_push_resume_def)

theorem push_on_closed_queue_witness:
  "shutdown (snd (queue_shutdown wrapped_queue)) \<and>
   queue_push (snd (queue_shutdown wrapped_queue)) (Some \<lparr>addr = 7, bytes = ''late''\<rparr>) (Some 8)
     = (Ret (- 2), snd (queue_shutdown wrapped_queue)) \<and>
   queue_push_resume (snd (queue_run (snd (queue_shutdown wrapped_queue)) [Pop]))
       \<lparr>addr = 7, bytes = ''late''\<rparr> (Some 8)
     = (Ret (- 2), snd (queue_run (snd (queue_shutdown wrapped_queue)) [Pop]))"
proof -
  have sh: "shutdown (snd (queue_shutdown wrapped_queue))"
    by (simp add: queue_shutdown_def)
  from push_on_closed_queue [OF sh, of "\<lparr>addr = 7, bytes = ''late''\<rparr>" "Some 8" "[Pop]"] sh
  show ?thesis by (simp add: QUEUE_SHUTDOWN_def)
qed

text \<open>
  Claim C6 (capacity invariant). A queue constructed with capacity \<open>C\<close> has \<open>C > 0\<close> and
  size 0, and after any sequence of pushes, pops and shutdowns its capacity is still
  \<open>C\<close> and its size is at most \<open>C\<close> (the size is unsigned, and a pop that returns 0
  found it positive, so the decrement does not wrap). A push on a queue whose size is
  \<open>C\<close> enqueues nothing: it leaves the queue as it is and does not return 0.
\<close>

theorem capacity_invariant:
  assumes "queue_init C a b c d = (r, Some q0)"
  shows "0 < C \<and> size q0 = 0 \<and> capacity (snd (queue_run q0 ops)) = C \<and>
         size (snd (queue_run q0 ops)) \<le> C \<and>
         (size (snd (queue_run q0 ops)) = C \<longrightarrow>
            snd (queue_push (snd (queue_run q0 ops)) str m) = snd (queue_run q0 ops) \<and>
            fst (queue_push (snd (queue_run q0 ops)) str m) \<noteq> Ret 0) \<and>
         (fst (queue_pop (snd (queue_run q0 ops))) = Ret 0 \<longrightarrow>
            0 < size (snd (queue_run q0 ops)))"
proof -
  from queue_init_ok [OF assms] have q0: "0 < C" "capacity q0 = C" "size q0 = 0" by simp_all
  then have "size q0 \<le> capacity q0" by simp
  from run_keeps_capacity [OF this, of ops] q0
  show ?thesis
    by (auto simp: queue_push_def queue_push_resume_def queue_pop_def QUEUE_SHUTDOWN_def
        split: option.splits if_splits)
qed

theorem capacity_invariant_witness:
  "queue_init 2 True True True True = (0, Some fresh_queue) \<and>
   size (snd (queue_run fresh_queue
      [Push \<lparr>addr = 1, bytes = ''a''\<rparr> (Some 21), Push \<lparr>addr = 1, bytes = ''b''\<rparr> (Some 22)])) = 2 \<and>
   snd (queue_push (snd (queue_run fresh_queue
      [Push \<lparr>addr = 1, bytes = ''a''\<rparr> (Some 21), Push \<lparr>addr = 1, bytes = ''b''\<rparr> (Some 22)]))
      (Some \<lparr>addr = 1, bytes = ''c''\<rparr>) (Some 23))
     = snd (queue_run fresh_queue
      [Push \<lparr>addr = 1, bytes = ''a''\<rparr> (Some 21), Push \<lparr>addr = 1, bytes = ''b''\<rparr> (Some 22)])"
proof -
  let ?ops = "[Push \<lparr>addr = 1, bytes = ''a''\<rparr> (Some 21), Push \<lparr>addr = 1, bytes = ''b''\<rparr> (Some 22)]"
  have sz: "size (snd (queue_run fresh_queue ?ops)) = 2"
    by (simp add: fresh_queue_def queue_push_def queue_push_resume_def strdup_def)
  from capacity_invariant [OF fresh_queue_init, of ?ops "Some \<lparr>addr = 1, bytes = ''c''\<rparr>" "Some 23"]
    sz fresh_queue_init
  show ?thesis by simp
qed

text \<open>
  Claim C5 (the ring is a bounded FIFO). For any order in which the critical sections of
  push, pop and shutdown calls run on a ring that satisfies its invariant, the ring and
  the buffer of the specification return the same codes and strings and stay related by
  \<open>abs_fifo\<close>. The strings the successful pops delivered, followed by what is still
  enqueued, are byte for byte what was enqueued at the start followed by what the
  successful pushes were given, in push order; from an empty ring to an empty ring, the
  consumer has seen exactly the producer's sequence.
\<close>

theorem ring_is_bounded_fifo:
  assumes "queue_inv q" "queue_run q ops = (obs, q')"
  shows "fifo_run (abs_fifo q) ops = (obs, abs_fifo q') \<and>
         map bytes (popped_ok obs) @ map bytes (items q') = map bytes (items q) @ pushed_ok ops obs \<and>
         (items q = [] \<and> items q' = [] \<longrightarrow> map bytes (popped_ok obs) = pushed_ok ops obs)"
proof -
  have "fifo_run (abs_fifo q) ops = (obs, abs_fifo q') \<and>
         map bytes (popped_ok obs) @ map bytes (items q') = map bytes (items q) @ pushed_ok ops obs"
    using assms
  proof (induction ops arbitrary: q obs)
    case Nil
    then show ?case by simp
  next
    case (Cons x xs)
    obtain ob q1 where s: "queue_step q x = (ob, q1)" by (cases "queue_step q x") auto
    obtain obs1 where r: "queue_run q1 xs = (obs1, q')" and o: "obs = ob # obs1"
      using Cons.prems(2) s by (cases "queue_run q1 xs") auto
    note st = queue_step_refines [OF Cons.prems(1) s]
    note ih = Cons.IH [OF st(2) r]
    have "map bytes (popped_ok (ob # obs1)) @ map bytes (items q')
          = map bytes (popped_ok [ob]) @ (map bytes (popped_ok obs1) @ map bytes (items q'))"
      by (subst popped_ok_Cons) simp
    also have "\<dots> = map bytes (popped_ok [ob]) @ map bytes (items q1) @ pushed_ok xs obs1"
      using ih by simp
    also have "\<dots> = map bytes (items q) @ pushed_ok [x] [ob] @ pushed_ok xs obs1"
      using st(3) by simp
    also have "\<dots> = map bytes (items q) @ pushed_ok (x # xs) (ob # obs1)"
      by (subst (2) pushed_ok_Cons) simp
    finally show ?case using st(1) ih o by simp
  qed
  then show ?thesis by auto
qed

theorem ring_is_bounded_fifo_witness:
  "queue_inv fresh_queue \<and>
   queue_run fresh_queue
     [Push \<lparr>addr = 1, bytes = ''a''\<rparr> (Some 21), Push \<lparr>addr = 1, bytes = ''b''\<rparr> (Some 22),
      Push \<lparr>addr = 1, bytes = ''c''\<rparr> (Some 23), Pop, Push \<lparr>addr = 1, bytes = ''c''\<rparr> (Some 23),
      Pop, Pop, Pop]
   = ([Pushed (Ret 0), Pushed (Ret 0), Pushed Wait, Popped (Ret 0) (Some \<lparr>addr = 21, bytes = ''a''\<rparr>),
       Pushed (Ret 0), Popped (Ret 0) (Some \<lparr>addr = 22, bytes = ''b''\<rparr>),
       Popped (Ret 0) (Some \<lparr>addr = 23, bytes = ''c''\<rparr>), Popped Wait None],
      \<lparr>buffer = [None, None], capacity = 2, size = 0, head = 1, tail = 1, shutdown = False\<rparr>) \<and>
   map bytes (popped_ok
      [Pushed (Ret 0), Pushed (Ret 0), Pushed Wait, Popped (Ret 0) (Some \<lparr>addr = 21, bytes = ''a''\<rparr>),
       Pushed (Ret 0), Popped (Ret 0) (Some \<lparr>addr = 22, bytes = ''b''\<rparr>),
       Popped (Ret 0) (Some \<lparr>addr = 23, bytes = ''c''\<rparr>), Popped Wait None])
   = [''a'', ''b'', ''c'']"
proof -
  let ?ops = "[Push \<lparr>addr = 1, bytes = ''a''\<rparr> (Some 21), Push \<lparr>addr = 1, bytes = ''b''\<rparr> (Some 22),
      Push \<lparr>addr = 1, bytes = ''c''\<rparr> (Some 23), Pop, Push \<lparr>addr = 1, bytes = ''c''\<rparr> (Some 23),
      Pop, Pop, Pop]"
  let ?obs = "[Pushed (Ret 0), Pushed (Ret 0), Pushed Wait, Popped (Ret 0) (Some \<lparr>addr = 21, bytes = ''a''\<rparr>),
       Pushed (Ret 0), Popped (Ret 0) (Some \<lparr>addr = 22, bytes = ''b''\<rparr>),
       Popped (Ret 0) (Some \<lparr>addr = 23, bytes = ''c''\<rparr>), Popped Wait None]"
  let ?q = "\<lparr>buffer = [None, None], capacity = 2, size = 0, head = 1, tail = 1, shutdown = False\<rparr>"
  have run: "queue_run fresh_queue ?ops = (?obs, ?q)"
    by (simp add: fresh_queue_def queue_push_def queue_push_resume_def queue_pop_def strdup_def)
  have e: "items fresh_queue = []" "items ?q = []"
    by (simp_all add: fresh_queue_def items_def slots_def)
  from ring_is_bounded_fifo [OF fresh_queue_inv run] e fresh_queue_inv run
  show ?thesis by simp
qed

text \<open>
  Claim C7 (ownership on push), as the code has it. The claim says that a successful
  push hands the caller's own string to the buffer and that a later pop delivers that
  very string. \<^verbatim>\<open>queue_push\<close> instead calls \<^verbatim>\<open>strdup\<close> and stores the copy
  (queue.h: "The string is copied immediately, caller retains ownership of input
  string"): pushing the string at address 1 into a fresh queue, with the allocator
  answering address 2, returns 0, and the pop that follows delivers the block at
  address 2, which is not the caller's string.
\<close>

theorem push_transfers_ownership_counterexample:
  "fst (queue_push fresh_queue (Some \<lparr>addr = 1, bytes = ''hi''\<rparr>) (Some 2)) = Ret 0 \<and>
   fst (snd (queue_pop (snd (queue_push fresh_queue (Some \<lparr>addr = 1, bytes = ''hi''\<rparr>) (Some 2)))))
     = Some \<lparr>addr = 2, bytes = ''hi''\<rparr> \<and>
   fst (snd (queue_pop (snd (queue_push fresh_queue (Some \<lparr>addr = 1, bytes = ''hi''\<rparr>) (Some 2)))))
     \<noteq> Some \<lparr>addr = 1, bytes = ''hi''\<rparr>"
  by (simp add: fresh_queue_def queue_push_def queue_push_resume_def queue_pop_def strdup_def)

text \<open>
  Claim C7, amended. Whenever \<^verbatim>\<open>queue_push\<close> returns 0 the allocator has answered with
  a block, and what is enqueued at the tail is that block holding the bytes of the
  caller's string; the pop after the ones for the strings enqueued before delivers that
  copy, and when the block is not the caller's own (the allocator never hands out a
  live block) the delivered string is not the caller's string, which stays with the
  caller.
\<close>

theorem push_enqueues_copy:
  assumes "queue_inv q" "queue_push q (Some s) m = (Ret 0, q')"
  shows "\<exists>a. m = Some a \<and> items q' = items q @ [\<lparr>addr = a, bytes = bytes s\<rparr>] \<and>
           fst (pops (Suc (size q)) q')
             = map (\<lambda>x. (Ret 0, Some x)) (items q) @ [(Ret 0, Some \<lparr>addr = a, bytes = bytes s\<rparr>)] \<and>
           (a \<noteq> addr s \<longrightarrow> \<lparr>addr = a, bytes = bytes s\<rparr> \<noteq> s)"
proof -
  note p = push_step [OF assms]
  from p(3) obtain a where a: "m = Some a" "items q' = items q @ [\<lparr>addr = a, bytes = bytes s\<rparr>]"
    by blast
  have sz: "size q' = Suc (size q)"
    using length_items [of q'] length_items [of q] a(2) by simp
  from pops_take [OF p(2), of "Suc (size q)"] sz a(2) length_items [of q]
  have "fst (pops (Suc (size q)) q')
      = map (\<lambda>x. (Ret 0, Some x)) (items q) @ [(Ret 0, Some \<lparr>addr = a, bytes = bytes s\<rparr>)]"
    by simp
  moreover have "a \<noteq> addr s \<longrightarrow> \<lparr>addr = a, bytes = bytes s\<rparr> \<noteq> s"
    by (cases s) auto
  ultimately show ?thesis using a by blast
qed

theorem push_enqueues_copy_witness:
  "queue_inv wrapped_queue \<and>
   queue_push wrapped_queue (Some \<lparr>addr = 1, bytes = ''hi''\<rparr>) (Some 13)
     = (Ret 0, \<lparr>buffer = [Some \<lparr>addr = 12, bytes = ''two''\<rparr>, Some \<lparr>addr = 13, bytes = ''hi''\<rparr>,
                         Some \<lparr>addr = 11, bytes = ''one''\<rparr>],
                capacity = 3, size = 3, head = 2, tail = 2, shutdown = False\<rparr>) \<and>
   fst (pops 3 \<lparr>buffer = [Some \<lparr>addr = 12, bytes = ''two''\<rparr>, Some \<lparr>addr = 13, bytes = ''hi''\<rparr>,
                         Some \<lparr>addr = 11, bytes = ''one''\<rparr>],
                capacity = 3, size = 3, head = 2, tail = 2, shutdown = False\<rparr>)
     = [(Ret 0, Some \<lparr>addr = 11, bytes = ''one''\<rparr>), (Ret 0, Some \<lparr>addr = 12, bytes = ''two''\<rparr>),
        (Ret 0, Some \<lparr>addr = 13, bytes = ''hi''\<rparr>)]"
proof -
  let ?q' = "\<lparr>buffer = [Some \<lparr>addr = 12, bytes = ''two''\<rparr>, Some \<lparr>addr = 13, bytes = ''hi''\<rparr>,
                         Some \<lparr>addr = 11, bytes = ''one''\<rparr>],
                capacity = 3, size = 3, head = 2, tail = 2, shutdown = False\<rparr>"
  have push: "queue_push wrapped_queue (Some \<lparr>addr = 1, bytes = ''hi''\<rparr>) (Some 13) = (Ret 0, ?q')"
    by (simp add: wrapped_queue_def queue_push_def queue_push_resume_def strdup_def)
  have "size wrapped_queue = 2" by (simp add: wrapped_queue_def)
  with push_enqueues_copy [OF wrapped_queue_inv push] wrapped_queue_inv wrapped_queue_items push
  show ?thesis by (simp add: numeral_3_eq_3)
qed

section \<open>The transforms (the plugin sources written by build.sh, plugins/lower.c)\<close>

text \<open>
  \<^verbatim>\<open>toupper\<close>, \<^verbatim>\<open>tolower\<close> and \<^verbatim>\<open>isspace\<close> of the C library in the "C" locale (the
  program never calls \<^verbatim>\<open>setlocale\<close>), on a byte: the 26 ASCII letters are folded, the
  six ASCII white-space bytes are space.
\<close>

definition toupper :: "char \<Rightarrow> char" where
  "toupper c = (if 97 \<le> (of_char c :: nat) \<and> (of_char c :: nat) \<le> 122
                then char_of (of_char c - 32 :: nat) else c)"

definition tolower :: "char \<Rightarrow> char" where
  "tolower c = (if 65 \<le> (of_char c :: nat) \<and> (of_char c :: nat) \<le> 90
                then char_of (of_char c + 32 :: nat) else c)"

definition isspace :: "char \<Rightarrow> bool" where
  "isspace c = ((of_char c :: nat) = 32 \<or> (9 \<le> (of_char c :: nat) \<and> (of_char c :: nat) \<le> 13))"

text \<open>\<^verbatim>\<open>for (char* p = output; *p; p++) *p = toupper((unsigned char)*p);\<close> and its
  \<^verbatim>\<open>tolower\<close> twin: one pass over the bytes before the terminator.\<close>

fun upper_loop :: "string \<Rightarrow> string" where
  "upper_loop [] = []"
| "upper_loop (c # cs) = toupper c # upper_loop cs"

fun lower_loop :: "string \<Rightarrow> string" where
  "lower_loop [] = []"
| "lower_loop (c # cs) = tolower c # lower_loop cs"

definition transform_upper :: "nat option \<Rightarrow> cstr \<Rightarrow> cstr option" where
  "transform_upper m input =
     (case strdup m input of
        None \<Rightarrow> None
      | Some output \<Rightarrow> Some (output\<lparr>bytes := upper_loop (bytes output)\<rparr>))"

definition transform_lower :: "nat option \<Rightarrow> cstr \<Rightarrow> cstr option" where
  "transform_lower m input =
     (case strdup m input of
        None \<Rightarrow> None
      | Some output \<Rightarrow> Some (output\<lparr>bytes := lower_loop (bytes output)\<rparr>))"

text \<open>The swap loop of reverse: \<open>i\<close> runs from 0 while \<open>i < len / 2\<close>.\<close>

function reverse_loop :: "nat \<Rightarrow> nat \<Rightarrow> string \<Rightarrow> string" where
  "reverse_loop i len out =
     (if i < len div 2
      then reverse_loop (i + 1) len (out[i := out ! (len - 1 - i), len - 1 - i := out ! i])
      else out)"
  by pat_completeness auto
termination
  by (relation "measure (\<lambda>(i, len, out). len div 2 - i)") auto

declare reverse_loop.simps [simp del]

definition transform_reverse :: "nat option \<Rightarrow> cstr \<Rightarrow> cstr option" where
  "transform_reverse m input =
     (case strdup m input of
        None \<Rightarrow> None
      | Some output \<Rightarrow>
          Some (output\<lparr>bytes := reverse_loop 0 (length (bytes output)) (bytes output)\<rparr>))"

text \<open>
  trim. \<open>start\<close> and \<open>end\<close> are indices into the copy (\<open>end\<close> is \<open>-1\<close> for the empty
  string); the byte at index \<open>length\<close> is the terminator, which stops the first loop.
  Writing the terminator at \<open>end + 1\<close> cuts the string there, and \<^verbatim>\<open>memmove\<close> brings
  the bytes from \<open>start\<close> to the front.
\<close>

function trim_start :: "string \<Rightarrow> nat \<Rightarrow> nat" where
  "trim_start out start =
     (if start < length out \<and> isspace (out ! start) then trim_start out (start + 1) else start)"
  by pat_completeness auto
termination
  by (relation "measure (\<lambda>(out, start). length out - start)") auto

function trim_end :: "string \<Rightarrow> nat \<Rightarrow> int \<Rightarrow> int" where
  "trim_end out start e =
     (if e > int start \<and> isspace (out ! nat e) then trim_end out start (e - 1) else e)"
  by pat_completeness auto
termination
  by (relation "measure (\<lambda>(out, start, e). nat e)") auto

declare trim_start.simps [simp del] trim_end.simps [simp del]

definition transform_trim :: "nat option \<Rightarrow> cstr \<Rightarrow> cstr option" where
  "transform_trim m input =
     (case strdup m input of
        None \<Rightarrow> None
      | Some output \<Rightarrow>
          (let out = bytes output;
               start = trim_start out 0;
               e = trim_end out start (int (length out) - 1);
               cut = take (nat (e + 1)) out
           in Some (output\<lparr>bytes := (if start \<noteq> 0 then drop start cut else cut)\<rparr>)))"

text \<open>prefix and suffix: a second allocation (\<open>m2\<close>); when it fails the copy is returned
  as it is.\<close>

definition transform_prefix :: "nat option \<Rightarrow> nat option \<Rightarrow> cstr \<Rightarrow> cstr option" where
  "transform_prefix m m2 input =
     (case strdup m input of
        None \<Rightarrow> None
      | Some output \<Rightarrow>
          (case m2 of
             None \<Rightarrow> Some output
           | Some a \<Rightarrow> Some \<lparr>addr = a, bytes = ''PREFIX:'' @ bytes output\<rparr>))"

definition transform_suffix :: "nat option \<Rightarrow> nat option \<Rightarrow> cstr \<Rightarrow> cstr option" where
  "transform_suffix m m2 input =
     (case strdup m input of
        None \<Rightarrow> None
      | Some output \<Rightarrow>
          (case m2 of
             None \<Rightarrow> Some output
           | Some a \<Rightarrow> Some \<lparr>addr = a, bytes = bytes output @ '':SUFFIX''\<rparr>))"

text \<open>The six plugins build.sh generates, and the \<^verbatim>\<open>transform_${plugin}\<close> of each.\<close>

datatype plugin = Upper | Lower | Reverse | Trim | Prefix | Suffix

fun plugin_name :: "plugin \<Rightarrow> string" where
  "plugin_name Upper = ''upper''"
| "plugin_name Lower = ''lower''"
| "plugin_name Reverse = ''reverse''"
| "plugin_name Trim = ''trim''"
| "plugin_name Prefix = ''prefix''"
| "plugin_name Suffix = ''suffix''"

fun transform :: "plugin \<Rightarrow> nat option \<Rightarrow> nat option \<Rightarrow> cstr \<Rightarrow> cstr option" where
  "transform Upper m m2 s = transform_upper m s"
| "transform Lower m m2 s = transform_lower m s"
| "transform Reverse m m2 s = transform_reverse m s"
| "transform Trim m m2 s = transform_trim m s"
| "transform Prefix m m2 s = transform_prefix m m2 s"
| "transform Suffix m m2 s = transform_suffix m m2 s"

text \<open>What a transform does to the bytes when its allocations are answered (the
  addresses do not matter, lemma \<open>transform_Some\<close>).\<close>

definition transform_bytes :: "plugin \<Rightarrow> string \<Rightarrow> string" where
  "transform_bytes p s =
     (case transform p (Some 0) (Some 0) \<lparr>addr = 0, bytes = s\<rparr> of
        None \<Rightarrow> s
      | Some t \<Rightarrow> bytes t)"

text \<open>A line passed through a list of transforms in order, every allocation answered
  (the \<open>k\<close>-th stage gets the blocks at \<open>a + 2k\<close> and \<open>a + 2k + 1\<close>).\<close>

fun compose_transforms :: "plugin list \<Rightarrow> nat \<Rightarrow> cstr \<Rightarrow> cstr option" where
  "compose_transforms [] a s = Some s"
| "compose_transforms (p # ps) a s =
     (case transform p (Some a) (Some (a + 1)) s of
        None \<Rightarrow> None
      | Some t \<Rightarrow> compose_transforms ps (a + 2) t)"

section \<open>The threads (main.c as build.sh writes it, src/main_backup.c, the plugins)\<close>

definition MAX_LINE_LENGTH :: nat where "MAX_LINE_LENGTH = 1024"
definition QUEUE_CAPACITY :: nat where "QUEUE_CAPACITY = 100"

subsection \<open>The input reader\<close>

text \<open>
  \<^verbatim>\<open>fgets(line, n, stdin)\<close> on the bytes still unread: it stores at most \<open>n - 1\<close> bytes,
  stops after a newline, and returns NULL (\<open>None\<close>) at end of file when nothing was
  read. The result is the bytes stored and the bytes left unread.
\<close>

fun fgets_read :: "nat \<Rightarrow> string \<Rightarrow> string \<times> string" where
  "fgets_read 0 inp = ([], inp)"
| "fgets_read (Suc k) [] = ([], [])"
| "fgets_read (Suc k) (c # cs) =
     (if c = CHR 0x0A then ([c], cs)
      else (case fgets_read k cs of (buf, rest) \<Rightarrow> (c # buf, rest)))"

definition fgets :: "nat \<Rightarrow> string \<Rightarrow> (string \<times> string) option" where
  "fgets n inp = (if inp = [] then None else Some (fgets_read (n - 1) inp))"

text \<open>The C string in a buffer ends at its first NUL byte (what \<^verbatim>\<open>strlen\<close>,
  \<^verbatim>\<open>strcmp\<close> and \<^verbatim>\<open>strdup\<close> see when the input itself holds a NUL).\<close>

definition c_string :: "string \<Rightarrow> string" where
  "c_string buf = takeWhile (\<lambda>c. c \<noteq> CHR 0x00) buf"

text \<open>\<^verbatim>\<open>if (len > 0 && line[len-1] == '\n') line[len-1] = '\0';\<close>\<close>

definition strip_newline :: "string \<Rightarrow> string" where
  "strip_newline l =
     (if length l > 0 \<and> l ! (length l - 1) = CHR 0x0A then take (length l - 1) l else l)"

text \<open>One \<^verbatim>\<open>fgets\<close> and the stripping: the string in \<^verbatim>\<open>line\<close> when \<^verbatim>\<open>strcmp\<close> is
  reached, and the input left.\<close>

definition read_line :: "string \<Rightarrow> (string \<times> string) option" where
  "read_line inp =
     (case fgets MAX_LINE_LENGTH inp of
        None \<Rightarrow> None
      | Some (buf, rest) \<Rightarrow> Some (strip_newline (c_string buf), rest))"

text \<open>
  \<^verbatim>\<open>input_thread\<close>, one step at a time. \<open>R_Fgets\<close>: at the loop head, about to call
  \<^verbatim>\<open>fgets\<close>. \<open>R_Line\<close>: the line is read and stripped, \<^verbatim>\<open>strcmp\<close> is next, then
  \<^verbatim>\<open>queue_shutdown\<close> or \<^verbatim>\<open>queue_push\<close>. \<open>R_Push\<close>: parked inside \<^verbatim>\<open>queue_push\<close>.
  \<open>R_Exit\<close>: returned. \<open>line\<close> is the array on the thread's stack. The value
  \<^verbatim>\<open>queue_push\<close> returns is ignored.
\<close>

datatype reader_pc = R_Fgets | R_Line | R_Push | R_Exit

record reader =
  rpc :: reader_pc
  stdin :: string
  line :: cstr

definition input_thread_step :: "nat option \<Rightarrow> reader \<times> queue \<Rightarrow> reader \<times> queue" where
  "input_thread_step m rq =
     (case rq of (r, q) \<Rightarrow>
        (case rpc r of
           R_Fgets \<Rightarrow>
             (case read_line (stdin r) of
                None \<Rightarrow> (r\<lparr>rpc := R_Exit\<rparr>, q)
              | Some (l, rest) \<Rightarrow> (r\<lparr>rpc := R_Line, stdin := rest, line := (line r)\<lparr>bytes := l\<rparr>\<rparr>, q))
         | R_Line \<Rightarrow>
             if bytes (line r) = ''<END>'' then (r\<lparr>rpc := R_Exit\<rparr>, snd (queue_shutdown q))
             else (case queue_push q (Some (line r)) m of
                     (Wait, q') \<Rightarrow> (r\<lparr>rpc := R_Push\<rparr>, q')
                   | (Ret c, q') \<Rightarrow> (r\<lparr>rpc := R_Fgets\<rparr>, q'))
         | R_Push \<Rightarrow>
             (case queue_push_resume q (line r) m of
                (Wait, q') \<Rightarrow> (r\<lparr>rpc := R_Push\<rparr>, q')
              | (Ret c, q') \<Rightarrow> (r\<lparr>rpc := R_Fgets\<rparr>, q'))
         | R_Exit \<Rightarrow> (r, q)))"

text \<open>The steps of the reader taken one after another, no other thread in between.\<close>

fun input_thread_run :: "nat option list \<Rightarrow> reader \<times> queue \<Rightarrow> reader \<times> queue" where
  "input_thread_run [] rq = rq"
| "input_thread_run (m # ms) rq = input_thread_run ms (input_thread_step m rq)"

text \<open>
  The loop of \<^verbatim>\<open>input_thread\<close> with the queue left out: the strings it hands to
  \<^verbatim>\<open>queue_push\<close>, in order, until \<^verbatim>\<open>fgets\<close> returns NULL or the line is
  \<^verbatim>\<open><END>\<close>; and whether it left the loop through \<^verbatim>\<open><END>\<close>, that is, whether it
  called \<^verbatim>\<open>queue_shutdown\<close>.
\<close>

lemma fgets_read_shorter: "fgets_read k inp = (buf, rest) \<Longrightarrow> length rest \<le> length inp"
  by (induction k inp arbitrary: buf rest rule: fgets_read.induct)
    (auto split: if_splits prod.splits)

lemma fgets_read_consumes:
  "fgets_read (Suc k) (c # cs) = (buf, rest) \<Longrightarrow> length rest < Suc (length cs)"
  using fgets_read_shorter [of k cs]
  by (auto split: if_splits prod.splits simp: less_Suc_eq_le)

lemma read_line_shorter: "read_line inp = Some (l, rest) \<Longrightarrow> length rest < length inp"
  using fgets_read_consumes [of 1022 "hd inp" "tl inp"]
  by (cases inp)
    (auto simp: read_line_def fgets_def MAX_LINE_LENGTH_def eval_nat_numeral
      split: if_splits prod.splits)

function input_lines :: "string \<Rightarrow> string list" where
  "input_lines inp =
     (case read_line inp of
        None \<Rightarrow> []
      | Some (l, rest) \<Rightarrow> if l = ''<END>'' then [] else l # input_lines rest)"
  by pat_completeness auto
termination
  by (relation "measure length") (auto dest: read_line_shorter)

function input_ends :: "string \<Rightarrow> bool" where
  "input_ends inp =
     (case read_line inp of
        None \<Rightarrow> False
      | Some (l, rest) \<Rightarrow> if l = ''<END>'' then True else input_ends rest)"
  by pat_completeness auto
termination
  by (relation "measure length") (auto dest: read_line_shorter)

declare input_lines.simps [simp del] input_ends.simps [simp del]

subsection \<open>The stage workers\<close>

text \<open>
  \<^verbatim>\<open>process_thread\<close> and the part of \<^verbatim>\<open>struct plugin_ctx\<close> it uses, one step at a time.
  A step holds at most one access to what other threads share (the flag
  \<^verbatim>\<open>stop_requested\<close>, read without a lock, or one critical section of a queue).
  \<open>W_Loop\<close>: at the loop test. \<open>W_Pop\<close>: in \<^verbatim>\<open>queue_pop\<close> on the input (entering it, or
  parked). \<open>W_Got\<close>: \<^verbatim>\<open>queue_pop\<close> has returned \<open>ret\<close> and stored \<open>str\<close>; the test of
  \<^verbatim>\<open>ret == QUEUE_SHUTDOWN || ctx->stop_requested\<close> and the transform are next.
  \<open>W_Close\<close>: about to call \<^verbatim>\<open>queue_shutdown\<close> on the output. \<open>W_Push\<close>: in
  \<^verbatim>\<open>queue_push\<close> on the output (entering it, or parked: both run the same test, lemma
  \<open>queue_push_resume_eq\<close>). \<open>W_Exit\<close>: returned.
\<close>

datatype worker_pc = W_Loop | W_Pop | W_Got | W_Close | W_Push | W_Exit

record worker =
  wpc :: worker_pc
  stop_requested :: bool
  ret :: int
  str :: "cstr option"
  transformed :: "cstr option"

text \<open>
  \<^verbatim>\<open>process_thread\<close> of plugins/lower.c and of the six plugins build.sh generates, for
  the plugin \<open>p\<close>. The state is the worker, its input queue and its output queue (two
  different queues); \<open>m\<close> and \<open>m2\<close> are the allocator's answers in this step.
\<close>

definition process_thread_step ::
  "plugin \<Rightarrow> nat option \<Rightarrow> nat option \<Rightarrow> worker \<times> queue \<times> queue \<Rightarrow> worker \<times> queue \<times> queue" where
  "process_thread_step p m m2 wio =
     (case wio of (w, inq, outq) \<Rightarrow>
        (case wpc w of
           W_Loop \<Rightarrow>
             if stop_requested w then (w\<lparr>wpc := W_Exit\<rparr>, inq, outq)
             else (w\<lparr>wpc := W_Pop\<rparr>, inq, outq)
         | W_Pop \<Rightarrow>
             (case queue_pop inq of
                (Wait, out, inq') \<Rightarrow> (w, inq', outq)
              | (Ret r, out, inq') \<Rightarrow> (w\<lparr>wpc := W_Got, ret := r, str := out\<rparr>, inq', outq))
         | W_Got \<Rightarrow>
             if ret w = QUEUE_SHUTDOWN \<or> stop_requested w
             then (w\<lparr>wpc := W_Close, str := None\<rparr>, inq, outq)
             else if ret w = 0 \<and> str w \<noteq> None then
               (case transform p m m2 (the (str w)) of
                  None \<Rightarrow> (w\<lparr>wpc := W_Loop, str := None\<rparr>, inq, outq)
                | Some t \<Rightarrow> (w\<lparr>wpc := W_Push, transformed := Some t\<rparr>, inq, outq))
             else (w\<lparr>wpc := W_Loop\<rparr>, inq, outq)
         | W_Close \<Rightarrow> (w\<lparr>wpc := W_Exit\<rparr>, inq, snd (queue_shutdown outq))
         | W_Push \<Rightarrow>
             (case queue_push outq (transformed w) m of
                (Wait, outq') \<Rightarrow> (w, inq, outq')
              | (Ret c, outq') \<Rightarrow>
                  (w\<lparr>wpc := W_Loop, str := None, transformed := None\<rparr>, inq, outq'))
         | W_Exit \<Rightarrow> (w, inq, outq)))"

text \<open>
  \<^verbatim>\<open>process_thread\<close> of plugins/test_upper.c: it folds the popped string in place and
  pushes that string; on \<^verbatim>\<open>QUEUE_SHUTDOWN\<close> or a stop request it frees and breaks.
\<close>

definition test_upper_step ::
  "nat option \<Rightarrow> worker \<times> queue \<times> queue \<Rightarrow> worker \<times> queue \<times> queue" where
  "test_upper_step m wio =
     (case wio of (w, inq, outq) \<Rightarrow>
        (case wpc w of
           W_Loop \<Rightarrow>
             if stop_requested w then (w\<lparr>wpc := W_Exit\<rparr>, inq, outq)
             else (w\<lparr>wpc := W_Pop\<rparr>, inq, outq)
         | W_Pop \<Rightarrow>
             (case queue_pop inq of
                (Wait, out, inq') \<Rightarrow> (w, inq', outq)
              | (Ret r, out, inq') \<Rightarrow> (w\<lparr>wpc := W_Got, ret := r, str := out\<rparr>, inq', outq))
         | W_Got \<Rightarrow>
             if ret w = QUEUE_SHUTDOWN \<or> stop_requested w
             then (w\<lparr>wpc := W_Exit, str := None\<rparr>, inq, outq)
             else if ret w = 0 \<and> str w \<noteq> None then
               (w\<lparr>wpc := W_Push,
                  str := Some ((the (str w))\<lparr>bytes := upper_loop (bytes (the (str w)))\<rparr>)\<rparr>,
                inq, outq)
             else (w\<lparr>wpc := W_Loop\<rparr>, inq, outq)
         | W_Close \<Rightarrow> (w\<lparr>wpc := W_Exit\<rparr>, inq, snd (queue_shutdown outq))
         | W_Push \<Rightarrow>
             (case queue_push outq (str w) m of
                (Wait, outq') \<Rightarrow> (w, inq, outq')
              | (Ret c, outq') \<Rightarrow> (w\<lparr>wpc := W_Loop, str := None\<rparr>, inq, outq'))
         | W_Exit \<Rightarrow> (w, inq, outq)))"

text \<open>\<^verbatim>\<open>plugin_create\<close> leaves the context like this when it starts the thread.\<close>

definition new_worker :: worker where
  "new_worker = \<lparr>wpc = W_Loop, stop_requested = False, ret = 0, str = None, transformed = None\<rparr>"

subsection \<open>The output writer\<close>

text \<open>
  \<^verbatim>\<open>output_thread\<close>: \<open>O_Pop\<close> in \<^verbatim>\<open>queue_pop\<close> (entering or parked), \<open>O_Exit\<close> returned.
  \<open>stdout\<close> is every byte written to standard output so far. A pop that returns 0
  stores a string (the occupied slots of a ring are not NULL); for a NULL the model
  prints what glibc's \<^verbatim>\<open>printf\<close> prints.
\<close>

datatype writer_pc = O_Pop | O_Exit

record writer =
  opc :: writer_pc
  stdout :: string

definition output_thread_step :: "writer \<times> queue \<Rightarrow> writer \<times> queue" where
  "output_thread_step oq =
     (case oq of (ow, q) \<Rightarrow>
        (case opc ow of
           O_Pop \<Rightarrow>
             (case queue_pop q of
                (Wait, out, q') \<Rightarrow> (ow, q')
              | (Ret r, out, q') \<Rightarrow>
                  if r = 0
                  then (ow\<lparr>stdout := stdout ow @
                            (case out of None \<Rightarrow> ''(null)'' | Some s \<Rightarrow> bytes s) @ [CHR 0x0A]\<rparr>, q')
                  else (ow\<lparr>opc := O_Exit\<rparr>, q'))
         | O_Exit \<Rightarrow> (ow, q)))"

subsection \<open>The main thread and the whole process\<close>

text \<open>
  \<^verbatim>\<open>main\<close> of main.c as build.sh writes it, from the point where every queue is
  initialised, every plugin is loaded and created, and the two I/O threads are started.
  \<open>M_JoinInput\<close> and \<open>M_JoinOutput\<close>: in \<^verbatim>\<open>pthread_join\<close> on the reader and on the writer.
  \<open>M_Stop i\<close>: about to call \<^verbatim>\<open>plugin_request_stop\<close> of plugin \<open>i\<close>. \<open>M_DestroyFlag i\<close>,
  \<open>M_DestroyShutdown i\<close>, \<open>M_DestroyJoin i\<close>: inside \<^verbatim>\<open>plugin_destroy\<close> of plugin \<open>i\<close>,
  at the store to \<^verbatim>\<open>stop_requested\<close>, at \<^verbatim>\<open>queue_shutdown(p->input)\<close> and in
  \<^verbatim>\<open>pthread_join\<close>. \<open>M_Cleanup\<close>: the queues are destroyed and the arrays freed.
  \<open>M_Return c\<close>: \<^verbatim>\<open>main\<close> has returned \<open>c\<close>.
\<close>

datatype main_pc =
  M_JoinInput | M_JoinOutput | M_Stop nat | M_DestroyFlag nat | M_DestroyShutdown nat
  | M_DestroyJoin nat | M_Cleanup | M_Return int

text \<open>
  The process: the array \<^verbatim>\<open>queues\<close> (\<open>N + 1\<close> queues for \<open>N\<close> plugins), the reader on
  queue 0, worker \<open>k\<close> from queue \<open>k\<close> to queue \<open>k + 1\<close>, the writer on queue \<open>N\<close>, and
  \<^verbatim>\<open>main\<close>.
\<close>

record pipeline =
  queues :: "queue list"
  rd :: reader
  workers :: "worker list"
  wr :: writer
  mpc :: main_pc

definition main_step :: "pipeline \<Rightarrow> pipeline" where
  "main_step s =
     (case mpc s of
        M_JoinInput \<Rightarrow> if rpc (rd s) = R_Exit then s\<lparr>mpc := M_JoinOutput\<rparr> else s
      | M_JoinOutput \<Rightarrow>
          if opc (wr s) = O_Exit
          then s\<lparr>mpc := (if 0 < length (workers s) then M_Stop 0 else M_Cleanup)\<rparr>
          else s
      | M_Stop i \<Rightarrow>
          s\<lparr>workers := (workers s)[i := (workers s ! i)\<lparr>stop_requested := True\<rparr>],
            mpc := (if Suc i < length (workers s) then M_Stop (Suc i) else M_DestroyFlag 0)\<rparr>
      | M_DestroyFlag i \<Rightarrow>
          s\<lparr>workers := (workers s)[i := (workers s ! i)\<lparr>stop_requested := True\<rparr>],
            mpc := M_DestroyShutdown i\<rparr>
      | M_DestroyShutdown i \<Rightarrow>
          s\<lparr>queues := (queues s)[i := snd (queue_shutdown (queues s ! i))],
            mpc := M_DestroyJoin i\<rparr>
      | M_DestroyJoin i \<Rightarrow>
          if wpc (workers s ! i) = W_Exit
          then s\<lparr>mpc := (if Suc i < length (workers s) then M_DestroyFlag (Suc i) else M_Cleanup)\<rparr>
          else s
      | M_Cleanup \<Rightarrow> s\<lparr>mpc := M_Return 0\<rparr>
      | M_Return c \<Rightarrow> s)"

text \<open>
  One step of one thread: which thread runs next, and what the allocator answers it in
  that step, is the scheduler's and the allocator's choice.
\<close>

datatype event = Reader "nat option" | Worker nat "nat option" "nat option" | Writer | Main

definition step :: "plugin list \<Rightarrow> event \<Rightarrow> pipeline \<Rightarrow> pipeline" where
  "step ps e s =
     (case e of
        Reader m \<Rightarrow>
          (case input_thread_step m (rd s, queues s ! 0) of
             (r', q') \<Rightarrow> s\<lparr>rd := r', queues := (queues s)[0 := q']\<rparr>)
      | Worker k m m2 \<Rightarrow>
          if k < length (workers s) then
            (case process_thread_step (ps ! k) m m2 (workers s ! k, queues s ! k, queues s ! Suc k) of
               (w', inq', outq') \<Rightarrow>
                 s\<lparr>workers := (workers s)[k := w'], queues := (queues s)[k := inq', Suc k := outq']\<rparr>)
          else s
      | Writer \<Rightarrow>
          (case output_thread_step (wr s, queues s ! length (workers s)) of
             (ow', q') \<Rightarrow> s\<lparr>wr := ow', queues := (queues s)[length (workers s) := q']\<rparr>)
      | Main \<Rightarrow> main_step s)"

fun run :: "plugin list \<Rightarrow> event list \<Rightarrow> pipeline \<Rightarrow> pipeline" where
  "run ps [] s = s"
| "run ps (e # es) s = run ps es (step ps e s)"

text \<open>Every allocation of a step is answered.\<close>

fun alloc_ok :: "event \<Rightarrow> bool" where
  "alloc_ok (Reader m) = (m \<noteq> None)"
| "alloc_ok (Worker k m m2) = (m \<noteq> None \<and> m2 \<noteq> None)"
| "alloc_ok Writer = True"
| "alloc_ok Main = True"

text \<open>
  What \<^verbatim>\<open>main\<close> has printed on standard output when the I/O threads start: one
  \<^verbatim>\<open>Loaded plugin: %s\<close> line for each plugin.
\<close>

definition loaded_lines :: "plugin list \<Rightarrow> string" where
  "loaded_lines ps = concat (map (\<lambda>p. ''Loaded plugin: '' @ plugin_name p @ [CHR 0x0A]) ps)"

definition empty_queue :: "nat \<Rightarrow> queue" where
  "empty_queue cap = \<lparr>buffer = replicate cap None, capacity = cap, size = 0, head = 0,
                       tail = 0, shutdown = False\<rparr>"

text \<open>
  The state in which the I/O threads start, for the plugins \<open>ps\<close> and the bytes \<open>inp\<close> on
  standard input, when the start-up succeeded: the queues as \<^verbatim>\<open>queue_init\<close> leaves
  them, the workers as \<^verbatim>\<open>plugin_create\<close> leaves them (a worker started earlier can by
  then only have reached its first pop on an empty queue, which it can as well do
  from here), and \<^verbatim>\<open>main\<close> about to join the reader.
\<close>

definition pipeline_start :: "plugin list \<Rightarrow> string \<Rightarrow> pipeline" where
  "pipeline_start ps inp =
     \<lparr>queues = replicate (length ps + 1) (empty_queue QUEUE_CAPACITY),
      rd = \<lparr>rpc = R_Fgets, stdin = inp, line = \<lparr>addr = 0, bytes = []\<rparr>\<rparr>,
      workers = replicate (length ps) new_worker,
      wr = \<lparr>opc = O_Pop, stdout = loaded_lines ps\<rparr>,
      mpc = M_JoinInput\<rparr>"

text \<open>The bytes a list of lines is on standard input or output: each line and a newline.\<close>

definition unlines :: "string list \<Rightarrow> string" where
  "unlines ls = concat (map (\<lambda>l. l @ [CHR 0x0A]) ls)"

subsection \<open>Facts about the transforms\<close>

lemma upper_loop_map: "upper_loop s = map toupper s"
  by (induction s) auto

lemma lower_loop_map: "lower_loop s = map tolower s"
  by (induction s) auto

lemma lowercase_letters:
  assumes "97 \<le> (of_char c :: nat)" "(of_char c :: nat) \<le> 122"
  shows "c \<in> set ''abcdefghijklmnopqrstuvwxyz''"
proof -
  have "c = char_of (of_char c :: nat)" by simp
  moreover from assms have "(of_char c :: nat) \<in> set [97..<123]"
    by (simp only: set_upt atLeastLessThan_iff) arith
  ultimately have "c \<in> char_of ` set [97..<123::nat]" by blast
  also have "char_of ` set [97..<123::nat] = set (map char_of [97..<123::nat])"
    by (simp only: set_map)
  also have "map char_of [97..<123::nat] = ''abcdefghijklmnopqrstuvwxyz''" by code_simp
  finally show ?thesis .
qed

lemma uppercase_letters:
  assumes "65 \<le> (of_char c :: nat)" "(of_char c :: nat) \<le> 90"
  shows "c \<in> set ''ABCDEFGHIJKLMNOPQRSTUVWXYZ''"
proof -
  have "c = char_of (of_char c :: nat)" by simp
  moreover from assms have "(of_char c :: nat) \<in> set [65..<91]"
    by (simp only: set_upt atLeastLessThan_iff) arith
  ultimately have "c \<in> char_of ` set [65..<91::nat]" by blast
  also have "char_of ` set [65..<91::nat] = set (map char_of [65..<91::nat])"
    by (simp only: set_map)
  also have "map char_of [65..<91::nat] = ''ABCDEFGHIJKLMNOPQRSTUVWXYZ''" by code_simp
  finally show ?thesis .
qed


lemma transform_Some:
  "\<exists>a'. transform p (Some a) (Some a2) s = Some \<lparr>addr = a', bytes = transform_bytes p (bytes s)\<rparr>"
  by (cases p)
    (simp_all add: transform_bytes_def transform_upper_def transform_lower_def
      transform_reverse_def transform_trim_def transform_prefix_def transform_suffix_def
      strdup_def Let_def del: reverse_loop.simps trim_start.simps trim_end.simps)

lemma compose_transforms_bytes:
  "\<exists>a'. compose_transforms ps a s = Some \<lparr>addr = a', bytes = fold transform_bytes ps (bytes s)\<rparr>"
proof (induction ps arbitrary: a s)
  case Nil
  show ?case by (cases s) simp
next
  case (Cons p ps)
  obtain a1 where t: "transform p (Some a) (Some (a + 1)) s
      = Some \<lparr>addr = a1, bytes = transform_bytes p (bytes s)\<rparr>"
    using transform_Some by blast
  from Cons.IH [of "a + 2" "\<lparr>addr = a1, bytes = transform_bytes p (bytes s)\<rparr>"] t
  show ?case by simp
qed

lemma fold_hello:
  "fold transform_bytes [Trim, Upper, Reverse, Prefix, Suffix, Lower] ''  hello  ''
     = ''prefix:olleh:suffix''"
  by code_simp

lemma compose_hello_any:
  "map_option bytes (compose_transforms [Trim, Upper, Reverse, Prefix, Suffix, Lower] a
      \<lparr>addr = b, bytes = ''  hello  ''\<rparr>) = Some ''prefix:olleh:suffix''"
  using compose_transforms_bytes [of "[Trim, Upper, Reverse, Prefix, Suffix, Lower]" a
      "\<lparr>addr = b, bytes = ''  hello  ''\<rparr>"]
  by (auto simp only: fold_hello cstr.simps option.map)

subsection \<open>Facts about the reader\<close>


lemma fgets_read_long:
  "CHR 0x0A \<notin> set l \<Longrightarrow> k \<le> length l \<Longrightarrow> fgets_read k (l @ rest) = (take k l, drop k l @ rest)"
proof (induction k arbitrary: l)
  case 0
  then show ?case by simp
next
  case (Suc k)
  then obtain c cs where l: "l = c # cs" by (cases l) auto
  with Suc.prems Suc.IH [of cs] show ?case by auto
qed

lemma fgets_read_short:
  "CHR 0x0A \<notin> set l \<Longrightarrow> length l < k \<Longrightarrow>
     fgets_read k (l @ CHR 0x0A # rest) = (l @ [CHR 0x0A], rest)"
proof (induction l arbitrary: k)
  case Nil
  then show ?case by (cases k) auto
next
  case (Cons c cs)
  then obtain k' where k: "k = Suc k'" by (cases k) auto
  with Cons.prems Cons.IH [of k'] show ?case by auto
qed

lemma c_string_id: "CHR 0x00 \<notin> set buf \<Longrightarrow> c_string buf = buf"
  by (auto simp: c_string_def takeWhile_eq_all_conv)

lemma read_line_short:
  assumes "CHR 0x0A \<notin> set l" "CHR 0x00 \<notin> set l" "length l < 1023"
  shows "read_line (l @ CHR 0x0A # rest) = Some (l, rest)"
proof -
  have "fgets_read 1023 (l @ CHR 0x0A # rest) = (l @ [CHR 0x0A], rest)"
    using assms by (intro fgets_read_short) auto
  moreover have "c_string (l @ [CHR 0x0A]) = l @ [CHR 0x0A]"
    using assms by (intro c_string_id) auto
  ultimately show ?thesis
    by (simp add: read_line_def fgets_def MAX_LINE_LENGTH_def strip_newline_def)
qed

lemma read_line_long:
  assumes "CHR 0x0A \<notin> set l" "CHR 0x00 \<notin> set (take 1023 l)" "1023 \<le> length l"
  shows "read_line (l @ rest) = Some (take 1023 l, drop 1023 l @ rest)"
proof -
  have f: "fgets_read 1023 (l @ rest) = (take 1023 l, drop 1023 l @ rest)"
    using assms by (intro fgets_read_long) auto
  have c: "c_string (take 1023 l) = take 1023 l"
    using assms by (intro c_string_id) auto
  from assms(3) have ne: "take 1023 l \<noteq> []" by auto
  then have "last (take 1023 l) \<in> set (take 1023 l)" by (rule last_in_set)
  then have "last (take 1023 l) \<in> set l" by (rule in_set_takeD)
  with assms(1) have "last (take 1023 l) \<noteq> CHR 0x0A" by auto
  with ne have s: "strip_newline (take 1023 l) = take 1023 l"
    by (auto simp: strip_newline_def last_conv_nth)
  from assms(3) have "l @ rest \<noteq> []" by auto
  with f c s show ?thesis
    by (simp add: read_line_def fgets_def MAX_LINE_LENGTH_def)
qed





lemma read_line_split: "read_line (l @ CHR 0x0A # rest) = Some (take 1023 l, drop 1023 l @ CHR 0x0A # rest)"
    if "CHR 0x0A \<notin> set l \<and> CHR 0x00 \<notin> set l \<and> 1023 \<le> length l" for l rest
  proof -
    from that have "CHR 0x00 \<notin> set (take 1023 l)" by (auto dest: in_set_takeD)
    with that show r: "read_line (l @ CHR 0x0A # rest) = Some (take 1023 l, drop 1023 l @ CHR 0x0A # rest)"
      by (intro read_line_long) auto
  qed

lemma long_not_sentinel: "length x = 1023 \<Longrightarrow> x \<noteq> ''<END>''"
  by auto


lemma input_lines_split: "read_line (l @ CHR 0x0A # rest) = Some (take 1023 l, drop 1023 l @ CHR 0x0A # rest) \<and>
       input_lines (l @ CHR 0x0A # rest) = take 1023 l # input_lines (drop 1023 l @ CHR 0x0A # rest) \<and>
       input_ends (l @ CHR 0x0A # rest) = input_ends (drop 1023 l @ CHR 0x0A # rest)"
    if "CHR 0x0A \<notin> set l \<and> CHR 0x00 \<notin> set l \<and> 1023 \<le> length l" for l rest
proof -
  note r = read_line_split [OF that, of rest]
  from that have "length (take 1023 l) = 1023" by simp
  then have ne: "take 1023 l \<noteq> ''<END>''" by (rule long_not_sentinel)
  have "input_lines (l @ CHR 0x0A # rest) = take 1023 l # input_lines (drop 1023 l @ CHR 0x0A # rest)"
    by (subst input_lines.simps) (simp only: r ne option.case prod.case if_False)
  moreover have "input_ends (l @ CHR 0x0A # rest) = input_ends (drop 1023 l @ CHR 0x0A # rest)"
    by (subst input_ends.simps) (simp only: r ne option.case prod.case if_False)
  ultimately show ?thesis using r by blast
qed






subsection \<open>The transform and reader claims\<close>

text \<open>
  Claim C9 (transform composition). With every allocation answered, whatever the
  addresses, trim, upper, reverse, prefix, suffix, lower applied in this order to the line
  \<^verbatim>\<open>  hello  \<close> give exactly \<^verbatim>\<open>prefix:olleh:suffix\<close>. upper and lower map
  \<^verbatim>\<open>toupper\<close> and \<^verbatim>\<open>tolower\<close> over the bytes; these send the 26 lower-case ASCII
  letters to the upper-case ones and back, and leave every other byte as it is.
\<close>

theorem transform_composition:
  "(\<forall>a b. map_option bytes (compose_transforms [Trim, Upper, Reverse, Prefix, Suffix, Lower] a
      \<lparr>addr = b, bytes = ''  hello  ''\<rparr>) = Some ''prefix:olleh:suffix'') \<and>
   (\<forall>m s t. transform_upper m s = Some t \<longrightarrow> bytes t = map toupper (bytes s)) \<and>
   (\<forall>m s t. transform_lower m s = Some t \<longrightarrow> bytes t = map tolower (bytes s)) \<and>
   map toupper ''abcdefghijklmnopqrstuvwxyz'' = ''ABCDEFGHIJKLMNOPQRSTUVWXYZ'' \<and>
   map tolower ''ABCDEFGHIJKLMNOPQRSTUVWXYZ'' = ''abcdefghijklmnopqrstuvwxyz'' \<and>
   (\<forall>c. c \<notin> set ''abcdefghijklmnopqrstuvwxyz'' \<longrightarrow> toupper c = c) \<and>
   (\<forall>c. c \<notin> set ''ABCDEFGHIJKLMNOPQRSTUVWXYZ'' \<longrightarrow> tolower c = c)"
proof -
  have u: "map toupper ''abcdefghijklmnopqrstuvwxyz'' = ''ABCDEFGHIJKLMNOPQRSTUVWXYZ''"
    by code_simp
  have l: "map tolower ''ABCDEFGHIJKLMNOPQRSTUVWXYZ'' = ''abcdefghijklmnopqrstuvwxyz''"
    by code_simp
  have tu: "bytes t = map toupper (bytes s)" if "transform_upper m s = Some t" for m s t
    using that by (auto simp: transform_upper_def strdup_def upper_loop_map split: option.splits)
  have tl: "bytes t = map tolower (bytes s)" if "transform_lower m s = Some t" for m s t
    using that by (auto simp: transform_lower_def strdup_def lower_loop_map split: option.splits)
  have nu: "toupper c = c" if "c \<notin> set ''abcdefghijklmnopqrstuvwxyz''" for c
  proof -
    have "\<not> (97 \<le> (of_char c :: nat) \<and> (of_char c :: nat) \<le> 122)"
      using that lowercase_letters [of c] by blast
    then show ?thesis unfolding toupper_def by (rule if_not_P)
  qed
  have nl: "tolower c = c" if "c \<notin> set ''ABCDEFGHIJKLMNOPQRSTUVWXYZ''" for c
  proof -
    have "\<not> (65 \<le> (of_char c :: nat) \<and> (of_char c :: nat) \<le> 90)"
      using that uppercase_letters [of c] by blast
    then show ?thesis unfolding tolower_def by (rule if_not_P)
  qed
  from compose_hello_any u l tu tl nu nl show ?thesis by blast
qed

theorem transform_composition_witness:
  "CHR ''!'' \<notin> set ''abcdefghijklmnopqrstuvwxyz'' \<and> toupper CHR ''!'' = CHR ''!'' \<and>
   transform_upper (Some 5) \<lparr>addr = 1, bytes = ''a-b''\<rparr> = Some \<lparr>addr = 5, bytes = ''A-B''\<rparr> \<and>
   bytes \<lparr>addr = 5, bytes = ''A-B''\<rparr> = map toupper ''a-b'' \<and>
   map_option bytes (compose_transforms [Trim, Upper, Reverse, Prefix, Suffix, Lower] 100
      \<lparr>addr = 1, bytes = ''  hello  ''\<rparr>) = Some ''prefix:olleh:suffix''"
proof -
  have t: "transform_upper (Some 5) \<lparr>addr = 1, bytes = ''a-b''\<rparr> = Some \<lparr>addr = 5, bytes = ''A-B''\<rparr>"
    by code_simp
  have n: "CHR ''!'' \<notin> set ''abcdefghijklmnopqrstuvwxyz''" by simp
  from transform_composition t n show ?thesis by auto
qed










text \<open>
  Claim C3 (end of file without the sentinel), evaluated on the code. The input is the
  one line \<^verbatim>\<open>hello\<close> and then end of file. The reader reads and pushes the line, the
  next \<^verbatim>\<open>fgets\<close> returns NULL, and the thread returns with the queue holding the line
  and its shutdown flag still clear: \<^verbatim>\<open>input_thread\<close> calls \<^verbatim>\<open>queue_shutdown\<close> only on
  \<^verbatim>\<open><END>\<close>.
\<close>

theorem reader_eof_leaves_queue_open:
  "input_thread_run [None, Some 2, None]
     (\<lparr>rpc = R_Fgets, stdin = ''hello'' @ [CHR 0x0A], line = \<lparr>addr = 0, bytes = []\<rparr>\<rparr>, fresh_queue)
   = (\<lparr>rpc = R_Exit, stdin = [], line = \<lparr>addr = 0, bytes = ''hello''\<rparr>\<rparr>,
      \<lparr>buffer = [Some \<lparr>addr = 2, bytes = ''hello''\<rparr>, None], capacity = 2, size = 1,
        head = 0, tail = 1, shutdown = False\<rparr>)"
  by code_simp


text \<open>At end of file the reader returns and leaves the queue as it is, whatever its state.\<close>

lemma reader_eof_step:
  "rpc r = R_Fgets \<Longrightarrow> stdin r = [] \<Longrightarrow> input_thread_step m (r, q) = (r\<lparr>rpc := R_Exit\<rparr>, q)"
  by (simp add: input_thread_step_def read_line_def fgets_def)

subsection \<open>The worker claim\<close>

text \<open>
  The worker of the plugin template (plugins/lower.c and the six plugins build.sh
  generates) propagates the end of its input. When the pop on the input returns
  \<^verbatim>\<open>QUEUE_SHUTDOWN\<close> it goes on to call \<^verbatim>\<open>queue_shutdown\<close> on its output, whatever
  other threads do in between, and only then returns. The thread returns in two ways
  only: after that call, with the output shut down, or at the loop test when a stop was
  requested.
\<close>

lemma template_worker_propagates_shutdown:
  "(\<forall>w inq outq. wpc w = W_Pop \<and> fst (queue_pop inq) = Ret QUEUE_SHUTDOWN \<longrightarrow>
      wpc (fst (process_thread_step p m m2 (w, inq, outq))) = W_Got \<and>
      ret (fst (process_thread_step p m m2 (w, inq, outq))) = QUEUE_SHUTDOWN \<and>
      snd (snd (process_thread_step p m m2 (w, inq, outq))) = outq) \<and>
   (\<forall>w inq outq. wpc w = W_Got \<and> ret w = QUEUE_SHUTDOWN \<longrightarrow>
      wpc (fst (process_thread_step p m m2 (w, inq, outq))) = W_Close \<and>
      snd (snd (process_thread_step p m m2 (w, inq, outq))) = outq) \<and>
   (\<forall>w inq outq. wpc w = W_Close \<longrightarrow>
      wpc (fst (process_thread_step p m m2 (w, inq, outq))) = W_Exit \<and>
      shutdown (snd (snd (process_thread_step p m m2 (w, inq, outq))))) \<and>
   (\<forall>w inq outq. wpc w \<noteq> W_Exit \<and> wpc (fst (process_thread_step p m m2 (w, inq, outq))) = W_Exit \<longrightarrow>
      (wpc w = W_Close \<and> shutdown (snd (snd (process_thread_step p m m2 (w, inq, outq))))) \<or>
      (wpc w = W_Loop \<and> stop_requested w))"
proof (intro conjI allI impI)
  fix w :: worker and inq outq :: queue
  assume a: "wpc w = W_Pop \<and> fst (queue_pop inq) = Ret QUEUE_SHUTDOWN"
  then obtain out inq' where "queue_pop inq = (Ret QUEUE_SHUTDOWN, out, inq')"
    by (cases "queue_pop inq") auto
  with a show "wpc (fst (process_thread_step p m m2 (w, inq, outq))) = W_Got"
    "ret (fst (process_thread_step p m m2 (w, inq, outq))) = QUEUE_SHUTDOWN"
    "snd (snd (process_thread_step p m m2 (w, inq, outq))) = outq"
    by (simp_all add: process_thread_step_def)
next
  fix w :: worker and inq outq :: queue
  assume "wpc w = W_Got \<and> ret w = QUEUE_SHUTDOWN"
  then show "wpc (fst (process_thread_step p m m2 (w, inq, outq))) = W_Close"
    "snd (snd (process_thread_step p m m2 (w, inq, outq))) = outq"
    by (simp_all add: process_thread_step_def)
next
  fix w :: worker and inq outq :: queue
  assume "wpc w = W_Close"
  then show "wpc (fst (process_thread_step p m m2 (w, inq, outq))) = W_Exit"
    "shutdown (snd (snd (process_thread_step p m m2 (w, inq, outq))))"
    by (simp_all add: process_thread_step_def queue_shutdown_def)
next
  fix w :: worker and inq outq :: queue
  assume "wpc w \<noteq> W_Exit \<and> wpc (fst (process_thread_step p m m2 (w, inq, outq))) = W_Exit"
  then show "(wpc w = W_Close \<and> shutdown (snd (snd (process_thread_step p m m2 (w, inq, outq))))) \<or>
      (wpc w = W_Loop \<and> stop_requested w)"
    by (cases "wpc w")
      (auto simp: process_thread_step_def queue_shutdown_def
        split: if_splits prod.splits status.splits option.splits)
qed

text \<open>A push leaves the shutdown flag of the queue as it is.\<close>

lemma push_keeps_shutdown: "shutdown (snd (queue_push q x m)) = shutdown q"
  by (auto simp: queue_push_def queue_push_resume_def split: if_splits option.splits)

text \<open>The steps of the worker of plugins/test_upper.c, one by one.\<close>

lemma test_upper_never_closes:
  "wpc (fst (test_upper_step m (w, inq, outq))) \<noteq> W_Close \<and>
   shutdown (snd (snd (test_upper_step m (w, inq, outq)))) = shutdown outq"
  if "wpc w \<noteq> W_Close" for m w inq outq
proof (cases "wpc w")
  case W_Push
  obtain c outq' where p: "queue_push outq (str w) m = (c, outq')"
    by (cases "queue_push outq (str w) m")
  with push_keeps_shutdown [of outq "str w" m] have "shutdown outq' = shutdown outq" by simp
  with W_Push p show ?thesis
    by (cases c) (simp_all add: test_upper_step_def)
qed (use that in \<open>auto simp: test_upper_step_def split: prod.splits status.splits\<close>)

lemma test_upper_sees_end:
  "wpc (fst (test_upper_step m (w, inq, outq))) = W_Got \<and>
   ret (fst (test_upper_step m (w, inq, outq))) = QUEUE_SHUTDOWN \<and>
   snd (snd (test_upper_step m (w, inq, outq))) = outq"
  if "wpc w = W_Pop \<and> fst (queue_pop inq) = Ret QUEUE_SHUTDOWN" for m w inq outq
proof -
  from that obtain out inq' where "queue_pop inq = (Ret QUEUE_SHUTDOWN, out, inq')"
    by (cases "queue_pop inq") auto
  with that show ?thesis by (simp add: test_upper_step_def)
qed

lemma test_upper_breaks:
  "wpc (fst (test_upper_step m (w, inq, outq))) = W_Exit \<and>
   snd (snd (test_upper_step m (w, inq, outq))) = outq"
  if "wpc w = W_Got \<and> ret w = QUEUE_SHUTDOWN" for m w inq outq
  using that by (simp add: test_upper_step_def)

lemma test_upper_returned:
  "test_upper_step m (w, inq, outq) = (w, inq, outq)" if "wpc w = W_Exit" for m w inq outq
  using that by (simp add: test_upper_step_def)

lemma writer_parked:
  "output_thread_step (ow, outq) = (ow, outq)"
  if "opc ow = O_Pop \<and> size outq = 0 \<and> \<not> shutdown outq" for ow outq
  using that by (simp add: output_thread_step_def queue_pop_def)

text \<open>
  Claim C2 (shutdown propagation), on the worker of plugins/test_upper.c. When its pop
  returns \<^verbatim>\<open>QUEUE_SHUTDOWN\<close> it frees and breaks: the thread returns and its output
  queue is as it was, open if it was open. No step of this worker calls
  \<^verbatim>\<open>queue_shutdown\<close>, so the flag of its output never changes, and once the thread
  has returned it does nothing more. A writer that pops from that queue, empty and still
  open, stays parked.
\<close>

theorem test_upper_leaves_output_open:
  "(\<forall>m w inq outq. wpc w \<noteq> W_Close \<longrightarrow>
      wpc (fst (test_upper_step m (w, inq, outq))) \<noteq> W_Close \<and>
      shutdown (snd (snd (test_upper_step m (w, inq, outq)))) = shutdown outq) \<and>
   (\<forall>m w inq outq. wpc w = W_Pop \<and> fst (queue_pop inq) = Ret QUEUE_SHUTDOWN \<longrightarrow>
      wpc (fst (test_upper_step m (w, inq, outq))) = W_Got \<and>
      ret (fst (test_upper_step m (w, inq, outq))) = QUEUE_SHUTDOWN \<and>
      snd (snd (test_upper_step m (w, inq, outq))) = outq) \<and>
   (\<forall>m w inq outq. wpc w = W_Got \<and> ret w = QUEUE_SHUTDOWN \<longrightarrow>
      wpc (fst (test_upper_step m (w, inq, outq))) = W_Exit \<and>
      snd (snd (test_upper_step m (w, inq, outq))) = outq) \<and>
   (\<forall>m w inq outq. wpc w = W_Exit \<longrightarrow> test_upper_step m (w, inq, outq) = (w, inq, outq)) \<and>
   (\<forall>ow outq. opc ow = O_Pop \<and> size outq = 0 \<and> \<not> shutdown outq \<longrightarrow>
      output_thread_step (ow, outq) = (ow, outq))"
  using test_upper_never_closes test_upper_sees_end test_upper_breaks test_upper_returned
    writer_parked
  by (intro conjI allI impI) blast+

theorem test_upper_leaves_output_open_witness:
  "fst (queue_pop (fresh_queue\<lparr>shutdown := True\<rparr>)) = Ret QUEUE_SHUTDOWN \<and>
   wpc (fst (test_upper_step None (new_worker\<lparr>wpc := W_Pop\<rparr>, fresh_queue\<lparr>shutdown := True\<rparr>, fresh_queue)))
     = W_Got \<and>
   wpc (fst (test_upper_step None (test_upper_step None
      (new_worker\<lparr>wpc := W_Pop\<rparr>, fresh_queue\<lparr>shutdown := True\<rparr>, fresh_queue)))) = W_Exit \<and>
   snd (snd (test_upper_step None (test_upper_step None
      (new_worker\<lparr>wpc := W_Pop\<rparr>, fresh_queue\<lparr>shutdown := True\<rparr>, fresh_queue)))) = fresh_queue \<and>
   \<not> shutdown fresh_queue \<and>
   output_thread_step (\<lparr>opc = O_Pop, stdout = []\<rparr>, fresh_queue)
     = (\<lparr>opc = O_Pop, stdout = []\<rparr>, fresh_queue)"
proof -
  note t = test_upper_leaves_output_open
  let ?w = "new_worker\<lparr>wpc := W_Pop\<rparr>"
  let ?inq = "fresh_queue\<lparr>shutdown := True\<rparr>"
  have p: "fst (queue_pop ?inq) = Ret QUEUE_SHUTDOWN"
    by (simp add: queue_pop_def fresh_queue_def)
  have w: "wpc ?w = W_Pop" by simp
  from t w p have 1: "wpc (fst (test_upper_step None (?w, ?inq, fresh_queue))) = W_Got"
    and 2: "ret (fst (test_upper_step None (?w, ?inq, fresh_queue))) = QUEUE_SHUTDOWN"
    and 3: "snd (snd (test_upper_step None (?w, ?inq, fresh_queue))) = fresh_queue"
    by blast+
  obtain w1 inq1 outq1 where s1: "test_upper_step None (?w, ?inq, fresh_queue) = (w1, inq1, outq1)"
    by (cases "test_upper_step None (?w, ?inq, fresh_queue)")
  with 1 2 3 have h: "wpc w1 = W_Got \<and> ret w1 = QUEUE_SHUTDOWN" and o: "outq1 = fresh_queue"
    by simp_all
  from t h have "wpc (fst (test_upper_step None (w1, inq1, outq1))) = W_Exit \<and>
      snd (snd (test_upper_step None (w1, inq1, outq1))) = outq1"
    by blast
  with s1 o have 4: "wpc (fst (test_upper_step None (test_upper_step None (?w, ?inq, fresh_queue)))) = W_Exit"
    and 5: "snd (snd (test_upper_step None (test_upper_step None (?w, ?inq, fresh_queue)))) = fresh_queue"
    by simp_all
  have f: "opc \<lparr>opc = O_Pop, stdout = []\<rparr> = O_Pop \<and> size fresh_queue = 0 \<and> \<not> shutdown fresh_queue"
    by (simp add: fresh_queue_def)
  with t have 6: "output_thread_step (\<lparr>opc = O_Pop, stdout = []\<rparr>, fresh_queue)
     = (\<lparr>opc = O_Pop, stdout = []\<rparr>, fresh_queue)"
    by blast
  from p 1 4 5 6 f show ?thesis by blast
qed

section \<open>End-to-end behaviour of the pipeline\<close>

text \<open>
  The rest of the development is about \<open>run\<close>: every interleaving of the reader, the
  stage workers, the writer and the main thread of main.c as build.sh writes it. Three
  things are shown of every state a schedule reaches from \<open>pipeline_start\<close>: the lines
  still on their way, transformed by the stages they have yet to pass, follow what is
  already on standard output to make up the expected output; some thread can move as long
  as main has not returned; and a measure of the work left goes down at every step that
  changes the state. The definitions of this section are the invariant and the measure;
  none of them is part of the program.
\<close>

subsection \<open>Lines in flight\<close>

text \<open>The line a worker holds between its pop and its transform, and the transformed
  line it holds until its push has gone through.\<close>

definition held_in :: "worker \<Rightarrow> string list" where
  "held_in w = (if wpc w = W_Got \<and> ret w = 0 then (case str w of None \<Rightarrow> [] | Some x \<Rightarrow> [bytes x]) else [])"

definition held_out :: "worker \<Rightarrow> string list" where
  "held_out w = (if wpc w = W_Push then (case transformed w of None \<Rightarrow> [] | Some x \<Rightarrow> [bytes x]) else [])"

text \<open>The lines the reader has yet to push: the one in its buffer and those it will
  still read.\<close>

definition rd_pending :: "reader \<Rightarrow> string list" where
  "rd_pending r =
     (case rpc r of
        R_Fgets \<Rightarrow> input_lines (stdin r)
      | R_Line \<Rightarrow> if bytes (line r) = ''<END>'' then [] else bytes (line r) # input_lines (stdin r)
      | R_Push \<Rightarrow> bytes (line r) # input_lines (stdin r)
      | R_Exit \<Rightarrow> [])"

text \<open>
  \<open>upstream ps s k\<close> is what will still be pushed on queue \<open>k\<close>, oldest first, as it will
  arrive there: the lines behind queue \<open>k\<close>, each passed through the transforms between
  where it is and queue \<open>k\<close>. \<open>flow ps s k\<close> puts the items of queue \<open>k\<close> in front.
\<close>

fun upstream :: "plugin list \<Rightarrow> pipeline \<Rightarrow> nat \<Rightarrow> string list" where
  "upstream ps s 0 = rd_pending (rd s)"
| "upstream ps s (Suc k) =
     held_out (workers s ! k) @
     map (transform_bytes (ps ! k))
       (held_in (workers s ! k) @ map bytes (items (queues s ! k)) @ upstream ps s k)"

definition flow :: "plugin list \<Rightarrow> pipeline \<Rightarrow> nat \<Rightarrow> string list" where
  "flow ps s k = map bytes (items (queues s ! k)) @ upstream ps s k"

text \<open>What the process writes in the end: the announcements of main, then every line the
  reader makes of the input, passed through the stages.\<close>

definition expected_output :: "plugin list \<Rightarrow> string \<Rightarrow> string" where
  "expected_output ps inp =
     loaded_lines ps @ unlines (map (fold transform_bytes ps) (input_lines inp))"

definition conserved :: "plugin list \<Rightarrow> string \<Rightarrow> pipeline \<Rightarrow> bool" where
  "conserved ps inp s =
     (stdout (wr s) @ unlines (flow ps s (length ps)) = expected_output ps inp)"

subsection \<open>The invariant\<close>

text \<open>The reader will meet the sentinel: the input left, with the line in the buffer,
  still has \<^verbatim>\<open><END>\<close> on it.\<close>

definition reader_live :: "reader \<Rightarrow> bool" where
  "reader_live r =
     (case rpc r of
        R_Fgets \<Rightarrow> input_ends (stdin r)
      | R_Line \<Rightarrow> bytes (line r) = ''<END>'' \<or> input_ends (stdin r)
      | R_Push \<Rightarrow> bytes (line r) \<noteq> ''<END>'' \<and> input_ends (stdin r)
      | R_Exit \<Rightarrow> True)"

text \<open>A worker that has seen the end of its input, and what holds of the locals of a
  worker while main has not asked it to stop.\<close>

definition ended :: "worker \<Rightarrow> bool" where
  "ended w = (wpc w = W_Close \<or> wpc w = W_Exit \<or> (wpc w = W_Got \<and> ret w = QUEUE_SHUTDOWN))"

definition worker_ok :: "worker \<Rightarrow> bool" where
  "worker_ok w =
     (\<not> stop_requested w \<and>
      (wpc w = W_Got \<longrightarrow> (ret w = 0 \<and> str w \<noteq> None) \<or> ret w = QUEUE_SHUTDOWN) \<and>
      (wpc w = W_Push \<longrightarrow> transformed w \<noteq> None))"

text \<open>
  Queue \<open>k\<close> lies between its producer (the reader for queue 0, worker \<open>k - 1\<close> otherwise)
  and its consumer (worker \<open>k\<close>, the writer for the last queue). It is shut down exactly
  when its producer has returned, and its consumer has seen the end only when it was shut
  down and empty.
\<close>

definition prod_done :: "pipeline \<Rightarrow> nat \<Rightarrow> bool" where
  "prod_done s k = (case k of 0 \<Rightarrow> rpc (rd s) = R_Exit | Suc j \<Rightarrow> wpc (workers s ! j) = W_Exit)"

definition cons_ended :: "pipeline \<Rightarrow> nat \<Rightarrow> bool" where
  "cons_ended s k =
     (if k < length (workers s) then ended (workers s ! k) else opc (wr s) = O_Exit)"

definition link_ok :: "pipeline \<Rightarrow> nat \<Rightarrow> bool" where
  "link_ok s k =
     (queue_inv (queues s ! k) \<and> shutdown (queues s ! k) = prod_done s k \<and>
      (cons_ended s k \<longrightarrow> shutdown (queues s ! k) \<and> size (queues s ! k) = 0))"

text \<open>While main waits in one of its first two joins.\<close>

definition early_inv :: "plugin list \<Rightarrow> pipeline \<Rightarrow> bool" where
  "early_inv ps s =
     (length (workers s) = length ps \<and> length (queues s) = Suc (length ps) \<and>
      (\<forall>k \<le> length ps. link_ok s k) \<and> (\<forall>k < length ps. worker_ok (workers s ! k)) \<and>
      reader_live (rd s))"

text \<open>Once main is past the join of the writer: every thread has returned and the
  output is complete; main is somewhere in its clean-up.\<close>

fun main_ok :: "nat \<Rightarrow> main_pc \<Rightarrow> bool" where
  "main_ok n M_JoinInput = False"
| "main_ok n M_JoinOutput = False"
| "main_ok n (M_Stop i) = (i < n)"
| "main_ok n (M_DestroyFlag i) = (i < n)"
| "main_ok n (M_DestroyShutdown i) = (i < n)"
| "main_ok n (M_DestroyJoin i) = (i < n)"
| "main_ok n M_Cleanup = True"
| "main_ok n (M_Return c) = (c = 0)"

definition late_inv :: "plugin list \<Rightarrow> string \<Rightarrow> pipeline \<Rightarrow> bool" where
  "late_inv ps inp s =
     (length (workers s) = length ps \<and> length (queues s) = Suc (length ps) \<and>
      opc (wr s) = O_Exit \<and> stdout (wr s) = expected_output ps inp \<and>
      rpc (rd s) = R_Exit \<and> (\<forall>k < length ps. wpc (workers s ! k) = W_Exit) \<and>
      main_ok (length ps) (mpc s))"

definition pipeline_inv :: "plugin list \<Rightarrow> string \<Rightarrow> pipeline \<Rightarrow> bool" where
  "pipeline_inv ps inp s =
     ((mpc s = M_JoinInput \<or> mpc s = M_JoinOutput) \<and> early_inv ps s \<and> conserved ps inp s
      \<or> late_inv ps inp s)"

text \<open>A worker that cannot move: it has returned, it is parked in a pop on an empty open
  queue, or it is parked in a push on a full open queue.\<close>

definition worker_stuck :: "pipeline \<Rightarrow> nat \<Rightarrow> bool" where
  "worker_stuck s j =
     (wpc (workers s ! j) = W_Exit \<or>
      (wpc (workers s ! j) = W_Pop \<and> size (queues s ! j) = 0 \<and> \<not> shutdown (queues s ! j)) \<or>
      (wpc (workers s ! j) = W_Push \<and> size (queues s ! Suc j) \<ge> capacity (queues s ! Suc j) \<and>
        \<not> shutdown (queues s ! Suc j)))"

subsection \<open>The work left\<close>

text \<open>
  A line in queue \<open>k\<close> of \<open>n\<close> stages still costs every worker after it five steps and the
  writer one. A worker costs what is left of its round plus the line it holds; the
  reader costs a round for every byte yet to read; main costs its joins and its
  clean-up.
\<close>

definition item_weight :: "nat \<Rightarrow> nat \<Rightarrow> nat" where
  "item_weight n k = 5 * (n - k) + 1"

fun pc_weight :: "worker_pc \<Rightarrow> nat" where
  "pc_weight W_Loop = 5"
| "pc_weight W_Pop = 4"
| "pc_weight W_Got = 3"
| "pc_weight W_Close = 2"
| "pc_weight W_Push = 1"
| "pc_weight W_Exit = 0"

definition worker_weight :: "nat \<Rightarrow> worker \<Rightarrow> nat" where
  "worker_weight a w = pc_weight (wpc w) + a * (length (held_in w) + length (held_out w))"

definition reader_weight :: "nat \<Rightarrow> reader \<Rightarrow> nat" where
  "reader_weight a r =
     (a + 3) * length (stdin r) +
     (case rpc r of R_Fgets \<Rightarrow> 1 | R_Line \<Rightarrow> a + 3 | R_Push \<Rightarrow> a + 2 | R_Exit \<Rightarrow> 0)"

definition writer_weight :: "writer \<Rightarrow> nat" where
  "writer_weight ow = (case opc ow of O_Pop \<Rightarrow> 1 | O_Exit \<Rightarrow> 0)"

fun main_weight :: "nat \<Rightarrow> main_pc \<Rightarrow> nat" where
  "main_weight n M_JoinInput = 4 * n + 4"
| "main_weight n M_JoinOutput = 4 * n + 3"
| "main_weight n (M_Stop i) = 3 * n + 2 + (n - i)"
| "main_weight n (M_DestroyFlag i) = 3 * (n - i) + 2"
| "main_weight n (M_DestroyShutdown i) = 3 * (n - i) + 1"
| "main_weight n (M_DestroyJoin i) = 3 * (n - i)"
| "main_weight n M_Cleanup = 1"
| "main_weight n (M_Return c) = 0"

fun base :: "nat \<Rightarrow> pipeline \<Rightarrow> nat \<Rightarrow> nat" where
  "base n s 0 = 0"
| "base n s (Suc k) =
     base n s k + item_weight n k * size (queues s ! k) +
     worker_weight (item_weight n k) (workers s ! k)"

definition pot :: "nat \<Rightarrow> pipeline \<Rightarrow> nat \<Rightarrow> nat" where
  "pot n s k = base n s k + item_weight n k * size (queues s ! k)"

definition work :: "plugin list \<Rightarrow> pipeline \<Rightarrow> nat" where
  "work ps s =
     reader_weight (item_weight (length ps) 0) (rd s) + pot (length ps) s (length ps) +
     writer_weight (wr s) + main_weight (length ps) (mpc s)"

text \<open>The number of steps of a schedule that change the state: the steps in which a
  thread is not parked and has not returned.\<close>

fun progress_count :: "plugin list \<Rightarrow> event list \<Rightarrow> pipeline \<Rightarrow> nat" where
  "progress_count ps [] s = 0"
| "progress_count ps (e # es) s =
     (if step ps e s \<noteq> s then 1 else 0) + progress_count ps es (step ps e s)"

subsection \<open>Well-formed input\<close>

text \<open>An input line the reader passes on whole: no newline or NUL in it, shorter than
  \<open>MAX_LINE_LENGTH - 1\<close>, and not the sentinel.\<close>

definition wf_line :: "string \<Rightarrow> bool" where
  "wf_line l = (CHR 0x0A \<notin> set l \<and> CHR 0x00 \<notin> set l \<and> length l < 1023 \<and> l \<noteq> ''<END>'')"

text \<open>A schedule that takes the one-stage pipeline through the input of one line and the
  sentinel, to the return of main.\<close>

definition hello_schedule :: "event list" where
  "hello_schedule =
     [Reader (Some 1), Reader (Some 2), Worker 0 (Some 3) (Some 4), Worker 0 (Some 3) (Some 4),
      Worker 0 (Some 5) (Some 6), Worker 0 (Some 7) (Some 8), Writer, Reader (Some 1),
      Reader (Some 1), Worker 0 (Some 3) (Some 4), Worker 0 (Some 3) (Some 4),
      Worker 0 (Some 3) (Some 4), Worker 0 (Some 3) (Some 4), Writer,
      Main, Main, Main, Main, Main, Main, Main]"

subsection \<open>The steps keep the invariant\<close>

text \<open>What one step of the reader, of a worker and of the writer does to the lines in
  flight and to the queue on either side of it; then the invariant over a step of each
  thread, over main, and over a run.\<close>

lemma upstream_cong:
  assumes "rd s' = rd s"
    and "\<And>i. i < k \<Longrightarrow> queues s' ! i = queues s ! i"
    and "\<And>i. i < k \<Longrightarrow> workers s' ! i = workers s ! i"
  shows "upstream ps s' k = upstream ps s k"
  using assms by (induction k) auto

lemma flow_Suc:
  "flow ps s (Suc k) = map bytes (items (queues s ! Suc k)) @ held_out (workers s ! k) @
     map (transform_bytes (ps ! k)) (held_in (workers s ! k) @ flow ps s k)"
  by (simp add: flow_def)

lemma flow_above:
  assumes "j \<le> k" "flow ps s' j = flow ps s j"
    and "\<And>i. j < i \<Longrightarrow> i \<le> k \<Longrightarrow> queues s' ! i = queues s ! i"
    and "\<And>i. j \<le> i \<Longrightarrow> i < k \<Longrightarrow> workers s' ! i = workers s ! i"
  shows "flow ps s' k = flow ps s k"
  using assms
proof (induction k)
  case 0
  then show ?case by simp
next
  case (Suc k)
  show ?case
  proof (cases "j = Suc k")
    case True
    with Suc.prems show ?thesis by simp
  next
    case False
    with Suc.prems have "j \<le> k" by simp
    then have "flow ps s' k = flow ps s k"
      using Suc.prems by (intro Suc.IH) auto
    moreover have "queues s' ! Suc k = queues s ! Suc k" "workers s' ! k = workers s ! k"
      using Suc.prems \<open>j \<le> k\<close> by auto
    ultimately show ?thesis by (simp add: flow_Suc)
  qed
qed

text \<open>reader, local\<close>

lemma input_lines_unfold:
  "input_lines inp = (case read_line inp of None \<Rightarrow> []
     | Some (l, rest) \<Rightarrow> if l = ''<END>'' then [] else l # input_lines rest)"
  by (rule input_lines.simps)

lemma input_ends_unfold:
  "input_ends inp = (case read_line inp of None \<Rightarrow> False
     | Some (l, rest) \<Rightarrow> if l = ''<END>'' then True else input_ends rest)"
  by (rule input_ends.simps)

lemma reader_step_local:
  assumes st: "input_thread_step (Some a) (r, q) = (r', q')"
    and inv: "queue_inv q" and live: "reader_live r"
    and sh: "shutdown q = (rpc r = R_Exit)"
  shows "map bytes (items q') @ rd_pending r' = map bytes (items q) @ rd_pending r"
    and "queue_inv q'" and "reader_live r'" and "shutdown q' = (rpc r' = R_Exit)"
    and "capacity q' = capacity q"
    and "shutdown q \<Longrightarrow> q' = q"
proof -
  have "map bytes (items q') @ rd_pending r' = map bytes (items q) @ rd_pending r \<and>
     queue_inv q' \<and> reader_live r' \<and> shutdown q' = (rpc r' = R_Exit) \<and> capacity q' = capacity q \<and>
     (shutdown q \<longrightarrow> q' = q)"
  proof (cases "rpc r")
    case R_Fgets
    from live R_Fgets have e: "input_ends (stdin r)" by (simp add: reader_live_def)
    then obtain l rest where rl: "read_line (stdin r) = Some (l, rest)"
      by (subst (asm) input_ends_unfold) (auto split: option.splits)
    from e rl have e': "l = ''<END>'' \<or> input_ends rest"
      by (subst (asm) input_ends_unfold) (auto split: if_splits)
    from rl have il: "input_lines (stdin r) = (if l = ''<END>'' then [] else l # input_lines rest)"
      by (subst input_lines_unfold) simp
    from st R_Fgets rl have r': "r' = r\<lparr>rpc := R_Line, stdin := rest, line := (line r)\<lparr>bytes := l\<rparr>\<rparr>"
      and q': "q' = q" by (simp_all add: input_thread_step_def)
    with inv sh R_Fgets e' il show ?thesis
      by (simp add: rd_pending_def reader_live_def)
  next
    case R_Line
    show ?thesis
    proof (cases "bytes (line r) = ''<END>''")
      case True
      with st R_Line have "r' = r\<lparr>rpc := R_Exit\<rparr>" "q' = snd (queue_shutdown q)"
        by (simp_all add: input_thread_step_def)
      with inv sh R_Line True show ?thesis
        by (simp add: rd_pending_def reader_live_def shutdown_keeps)
    next
      case False
      obtain c q1 where p: "queue_push q (Some (line r)) (Some a) = (c, q1)"
        by (cases "queue_push q (Some (line r)) (Some a)") auto
      note ps = push_step [OF inv p]
      from sh R_Line have nsh: "\<not> shutdown q" by simp
      from live R_Line False have e: "input_ends (stdin r)" by (simp add: reader_live_def)
      show ?thesis
      proof (cases c)
        case Wait
        with p ps(4) have "q1 = q" by simp
        with st R_Line False p Wait have "r' = r\<lparr>rpc := R_Push\<rparr>" "q' = q"
          by (simp_all add: input_thread_step_def)
        with inv sh R_Line False e show ?thesis
          by (simp add: rd_pending_def reader_live_def)
      next
        case (Ret n)
        with st R_Line False p have r': "r' = r\<lparr>rpc := R_Fgets\<rparr>" and q': "q' = q1"
          by (simp_all add: input_thread_step_def)
        from p nsh inv have "c = Ret 0"
          using Ret by (auto simp: queue_push_def queue_push_resume_def strdup_def queue_inv_def
              split: if_splits)
        with ps(3) have it: "items q1 = items q @ [\<lparr>addr = a, bytes = bytes (line r)\<rparr>]" by auto
        from p nsh have "shutdown q1 = shutdown q" "capacity q1 = capacity q"
          by (auto simp: queue_push_def queue_push_resume_def strdup_def split: if_splits)
        with r' q' it ps(2) nsh R_Line False e show ?thesis
          by (simp add: rd_pending_def reader_live_def)
      qed
    qed
  next
    case R_Push
    obtain c q1 where p: "queue_push q (Some (line r)) (Some a) = (c, q1)"
      by (cases "queue_push q (Some (line r)) (Some a)") auto
    then have p': "queue_push_resume q (line r) (Some a) = (c, q1)"
      by (simp add: queue_push_resume_eq)
    note ps = push_step [OF inv p]
    from sh R_Push have nsh: "\<not> shutdown q" by simp
    from live R_Push have e: "input_ends (stdin r)" and ne: "bytes (line r) \<noteq> ''<END>''"
      by (simp_all add: reader_live_def)
    show ?thesis
    proof (cases c)
      case Wait
      with p ps(4) have "q1 = q" by simp
      with st R_Push p' Wait have "r' = r\<lparr>rpc := R_Push\<rparr>" "q' = q"
        by (simp_all add: input_thread_step_def)
      with inv sh R_Push e ne show ?thesis
        by (simp add: rd_pending_def reader_live_def)
    next
      case (Ret n)
      with st R_Push p' have r': "r' = r\<lparr>rpc := R_Fgets\<rparr>" and q': "q' = q1"
        by (simp_all add: input_thread_step_def)
      from p nsh inv have "c = Ret 0"
        using Ret by (auto simp: queue_push_def queue_push_resume_def strdup_def queue_inv_def
            split: if_splits)
      with ps(3) have it: "items q1 = items q @ [\<lparr>addr = a, bytes = bytes (line r)\<rparr>]" by auto
      from p nsh have "shutdown q1 = shutdown q" "capacity q1 = capacity q"
        by (auto simp: queue_push_def queue_push_resume_def strdup_def split: if_splits)
      with r' q' it ps(2) nsh R_Push e show ?thesis
        by (simp add: rd_pending_def reader_live_def)
    qed
  next
    case R_Exit
    with st have "r' = r" "q' = q" by (simp_all add: input_thread_step_def)
    with inv sh live show ?thesis by simp
  qed
  then show "map bytes (items q') @ rd_pending r' = map bytes (items q) @ rd_pending r"
    and "queue_inv q'" and "reader_live r'" and "shutdown q' = (rpc r' = R_Exit)"
    and "capacity q' = capacity q"
    and "shutdown q \<Longrightarrow> q' = q"
    by blast+
qed

lemma pop_codes:
  assumes "queue_pop q = (Ret n, out, q')"
  shows "n = 0 \<or> (n = QUEUE_SHUTDOWN \<and> shutdown q \<and> size q = 0 \<and> q' = q \<and> out = None)"
  using assms by (auto simp: queue_pop_def split: if_splits)

lemma pop_frame:
  assumes "queue_pop q = (c, out, q')"
  shows "shutdown q' = shutdown q" "capacity q' = capacity q"
  using assms by (auto simp: queue_pop_def split: if_splits)

lemma push_frame:
  assumes "queue_push q x m = (c, q')"
  shows "shutdown q' = shutdown q" "capacity q' = capacity q"
  using assms
  by (auto simp: queue_push_def queue_push_resume_def split: if_splits option.splits)

lemma push_open_codes:
  assumes "queue_push q (Some x) (Some a) = (Ret n, q')" "\<not> shutdown q"
  shows "n = 0"
  using assms
  by (auto simp: queue_push_def queue_push_resume_def strdup_def split: if_splits)

lemma worker_step_local:
  assumes st: "process_thread_step p (Some a) (Some a2) (w, inq, outq) = (w', inq', outq')"
    and iinv: "queue_inv inq" and oinv: "queue_inv outq" and ok: "worker_ok w"
    and osh: "shutdown outq = (wpc w = W_Exit)"
    and ie: "ended w \<longrightarrow> shutdown inq \<and> size inq = 0"
  shows "map bytes (items outq') @ held_out w' @
           map (transform_bytes p) (held_in w' @ map bytes (items inq') @ X)
         = map bytes (items outq) @ held_out w @
           map (transform_bytes p) (held_in w @ map bytes (items inq) @ X)"
    and "queue_inv inq'" and "queue_inv outq'" and "worker_ok w'"
    and "shutdown outq' = (wpc w' = W_Exit)"
    and "ended w' \<longrightarrow> shutdown inq' \<and> size inq' = 0"
    and "shutdown inq' = shutdown inq"
    and "capacity inq' = capacity inq" and "capacity outq' = capacity outq"
    and "shutdown outq \<Longrightarrow> outq' = outq"
proof -
  from ok have ns: "\<not> stop_requested w" by (simp add: worker_ok_def)
  have "(map bytes (items outq') @ held_out w' @
           map (transform_bytes p) (held_in w' @ map bytes (items inq') @ X)
         = map bytes (items outq) @ held_out w @
           map (transform_bytes p) (held_in w @ map bytes (items inq) @ X)) \<and>
     queue_inv inq' \<and> queue_inv outq' \<and> worker_ok w' \<and> shutdown outq' = (wpc w' = W_Exit) \<and>
     (ended w' \<longrightarrow> shutdown inq' \<and> size inq' = 0) \<and> shutdown inq' = shutdown inq \<and>
     capacity inq' = capacity inq \<and> capacity outq' = capacity outq \<and> (shutdown outq \<longrightarrow> outq' = outq)"
  proof (cases "wpc w")
    case W_Loop
    with st ns have "w' = w\<lparr>wpc := W_Pop\<rparr>" "inq' = inq" "outq' = outq"
      by (simp_all add: process_thread_step_def)
    with W_Loop iinv oinv ok osh show ?thesis
      by (simp add: held_in_def held_out_def worker_ok_def ended_def)
  next
    case W_Pop
    obtain c out q1 where p: "queue_pop inq = (c, out, q1)"
      by (cases "queue_pop inq") auto
    note pf = pop_frame [OF p] and ps = pop_step [OF iinv p]
    show ?thesis
    proof (cases c)
      case Wait
      with p ps(4) have "q1 = inq" by simp
      with st W_Pop p Wait have "w' = w" "inq' = inq" "outq' = outq"
        by (simp_all add: process_thread_step_def)
      with W_Pop iinv oinv ok osh ie show ?thesis by simp
    next
      case (Ret n)
      with st W_Pop p have w': "w' = w\<lparr>wpc := W_Got, ret := n, str := out\<rparr>"
        and q': "inq' = q1" "outq' = outq"
        by (simp_all add: process_thread_step_def)
      from pop_codes [OF p [unfolded Ret]] show ?thesis
      proof
        assume n: "n = 0"
        with ps(3) Ret obtain x where x: "out = Some x" "items inq = x # items q1" by auto
        from w' q' n x W_Pop iinv oinv ok osh ps(2) pf show ?thesis
          by (simp add: held_in_def held_out_def worker_ok_def ended_def QUEUE_SHUTDOWN_def)
      next
        assume n: "n = QUEUE_SHUTDOWN \<and> shutdown inq \<and> size inq = 0 \<and> q1 = inq \<and> out = None"
        with w' q' W_Pop iinv oinv ok osh show ?thesis
          by (simp add: held_in_def held_out_def worker_ok_def ended_def QUEUE_SHUTDOWN_def)
      qed
    qed
  next
    case W_Got
    show ?thesis
    proof (cases "ret w = QUEUE_SHUTDOWN")
      case True
      with st W_Got have "w' = w\<lparr>wpc := W_Close, str := None\<rparr>" "inq' = inq" "outq' = outq"
        by (simp_all add: process_thread_step_def)
      with W_Got True iinv oinv ok osh ie show ?thesis
        by (simp add: held_in_def held_out_def worker_ok_def ended_def QUEUE_SHUTDOWN_def)
    next
      case False
      with ok W_Got obtain x where x: "ret w = 0" "str w = Some x"
        by (auto simp: worker_ok_def)
      obtain a' where t: "transform p (Some a) (Some a2) x
          = Some \<lparr>addr = a', bytes = transform_bytes p (bytes x)\<rparr>"
        using transform_Some by blast
      with st W_Got False ns x
      have "w' = w\<lparr>wpc := W_Push, transformed := Some \<lparr>addr = a', bytes = transform_bytes p (bytes x)\<rparr>\<rparr>"
        "inq' = inq" "outq' = outq"
        by (simp_all add: process_thread_step_def)
      with W_Got False x iinv oinv ok osh show ?thesis
        by (simp add: held_in_def held_out_def worker_ok_def ended_def)
    qed
  next
    case W_Close
    with st have "w' = w\<lparr>wpc := W_Exit\<rparr>" "inq' = inq" "outq' = snd (queue_shutdown outq)"
      by (simp_all add: process_thread_step_def)
    with W_Close iinv oinv ok osh ie show ?thesis
      by (simp add: held_in_def held_out_def worker_ok_def ended_def shutdown_keeps)
  next
    case W_Push
    with ok obtain t where t: "transformed w = Some t" by (auto simp: worker_ok_def)
    from osh W_Push have nsh: "\<not> shutdown outq" by simp
    obtain c q1 where p: "queue_push outq (Some t) (Some a) = (c, q1)"
      by (cases "queue_push outq (Some t) (Some a)") auto
    note pf = push_frame [OF p] and ps = push_step [OF oinv p]
    show ?thesis
    proof (cases c)
      case Wait
      with p ps(4) have "q1 = outq" by simp
      with st W_Push p t Wait have "w' = w" "inq' = inq" "outq' = outq"
        by (simp_all add: process_thread_step_def)
      with W_Push iinv oinv ok osh ie show ?thesis by simp
    next
      case (Ret n)
      with st W_Push p t have w': "w' = w\<lparr>wpc := W_Loop, str := None, transformed := None\<rparr>"
        and q': "inq' = inq" "outq' = q1"
        by (simp_all add: process_thread_step_def)
      from push_open_codes [OF p [unfolded Ret] nsh] Ret have "c = Ret 0" by simp
      with ps(3) have it: "items q1 = items outq @ [\<lparr>addr = a, bytes = bytes t\<rparr>]" by auto
      from w' q' it t W_Push iinv ps(2) ok nsh pf show ?thesis
        by (simp add: held_in_def held_out_def worker_ok_def ended_def)
    qed
  next
    case W_Exit
    with st have "w' = w" "inq' = inq" "outq' = outq"
      by (simp_all add: process_thread_step_def)
    with iinv oinv ok osh ie show ?thesis by simp
  qed
  then show "map bytes (items outq') @ held_out w' @
           map (transform_bytes p) (held_in w' @ map bytes (items inq') @ X)
         = map bytes (items outq) @ held_out w @
           map (transform_bytes p) (held_in w @ map bytes (items inq) @ X)"
    and "queue_inv inq'" and "queue_inv outq'" and "worker_ok w'"
    and "shutdown outq' = (wpc w' = W_Exit)"
    and "ended w' \<longrightarrow> shutdown inq' \<and> size inq' = 0"
    and "shutdown inq' = shutdown inq"
    and "capacity inq' = capacity inq" and "capacity outq' = capacity outq"
    and "shutdown outq \<Longrightarrow> outq' = outq"
    by blast+
qed

lemma unlines_append: "unlines (xs @ ys) = unlines xs @ unlines ys"
  by (simp add: unlines_def)

lemma unlines_Cons: "unlines (x # xs) = x @ CHR 0x0A # unlines xs"
  by (simp add: unlines_def)

lemma writer_step_local:
  assumes st: "output_thread_step (ow, q) = (ow', q')"
    and inv: "queue_inv q"
    and ex: "opc ow = O_Exit \<longrightarrow> shutdown q \<and> size q = 0"
  shows "stdout ow' @ unlines (map bytes (items q') @ X) = stdout ow @ unlines (map bytes (items q) @ X)"
    and "queue_inv q'" and "opc ow' = O_Exit \<longrightarrow> shutdown q' \<and> size q' = 0"
    and "shutdown q' = shutdown q" and "capacity q' = capacity q"
    and "opc ow = O_Exit \<Longrightarrow> ow' = ow \<and> q' = q"
proof -
  have "stdout ow' @ unlines (map bytes (items q') @ X) = stdout ow @ unlines (map bytes (items q) @ X) \<and>
    queue_inv q' \<and> (opc ow' = O_Exit \<longrightarrow> shutdown q' \<and> size q' = 0) \<and>
    shutdown q' = shutdown q \<and> capacity q' = capacity q \<and> (opc ow = O_Exit \<longrightarrow> ow' = ow \<and> q' = q)"
  proof (cases "opc ow")
    case O_Pop
    obtain c out q1 where p: "queue_pop q = (c, out, q1)"
      by (cases "queue_pop q") auto
    note pf = pop_frame [OF p] and ps = pop_step [OF inv p]
    show ?thesis
    proof (cases c)
      case Wait
      with p ps(4) have "q1 = q" by simp
      with st O_Pop p Wait have "ow' = ow" "q' = q"
        by (simp_all add: output_thread_step_def)
      with O_Pop inv show ?thesis by simp
    next
      case (Ret n)
      from pop_codes [OF p [unfolded Ret]] show ?thesis
      proof
        assume n: "n = 0"
        with ps(3) Ret obtain x where x: "out = Some x" "items q = x # items q1" by auto
        with st O_Pop p Ret n have "ow' = ow\<lparr>stdout := stdout ow @ bytes x @ [CHR 0x0A]\<rparr>" "q' = q1"
          by (simp_all add: output_thread_step_def)
        with x O_Pop ps(2) pf show ?thesis
          by (simp add: unlines_Cons)
      next
        assume n: "n = QUEUE_SHUTDOWN \<and> shutdown q \<and> size q = 0 \<and> q1 = q \<and> out = None"
        with st O_Pop p Ret have "ow' = ow\<lparr>opc := O_Exit\<rparr>" "q' = q"
          by (simp_all add: output_thread_step_def QUEUE_SHUTDOWN_def)
        with n inv show ?thesis by simp
      qed
    qed
  next
    case O_Exit
    with st have "ow' = ow" "q' = q" by (simp_all add: output_thread_step_def)
    with inv ex show ?thesis by simp
  qed
  then show "stdout ow' @ unlines (map bytes (items q') @ X) = stdout ow @ unlines (map bytes (items q) @ X)"
    and "queue_inv q'" and "opc ow' = O_Exit \<longrightarrow> shutdown q' \<and> size q' = 0"
    and "shutdown q' = shutdown q" and "capacity q' = capacity q"
    and "opc ow = O_Exit \<Longrightarrow> ow' = ow \<and> q' = q"
    by blast+
qed

lemma link_okD:
  assumes "link_ok s k"
  shows "queue_inv (queues s ! k)" and "shutdown (queues s ! k) = prod_done s k"
    and "cons_ended s k \<Longrightarrow> shutdown (queues s ! k)"
    and "cons_ended s k \<Longrightarrow> size (queues s ! k) = 0"
  using assms by (auto simp: link_ok_def)

lemma link_okI:
  assumes "queue_inv (queues s ! k)" and "shutdown (queues s ! k) = prod_done s k"
    and "cons_ended s k \<Longrightarrow> shutdown (queues s ! k) \<and> size (queues s ! k) = 0"
  shows "link_ok s k"
  using assms by (auto simp: link_ok_def)

lemma early_reader_step:
  assumes inv: "early_inv ps s" and con: "conserved ps inp s"
  shows "early_inv ps (step ps (Reader (Some a)) s) \<and> conserved ps inp (step ps (Reader (Some a)) s) \<and>
         mpc (step ps (Reader (Some a)) s) = mpc s \<and> wr (step ps (Reader (Some a)) s) = wr s"
proof -
  let ?N = "length ps"
  obtain r' q' where st: "input_thread_step (Some a) (rd s, queues s ! 0) = (r', q')"
    by (cases "input_thread_step (Some a) (rd s, queues s ! 0)") auto
  define s' where "s' = s\<lparr>rd := r', queues := (queues s)[0 := q']\<rparr>"
  from st have s': "step ps (Reader (Some a)) s = s'" by (simp add: step_def s'_def)
  from inv have len: "length (workers s) = ?N" "length (queues s) = Suc ?N"
    and l0: "link_ok s 0" and live: "reader_live (rd s)"
    by (simp_all add: early_inv_def)
  from link_okD(1,2) [OF l0] have qi: "queue_inv (queues s ! 0)"
    and sh: "shutdown (queues s ! 0) = (rpc (rd s) = R_Exit)"
    by (simp_all add: prod_done_def)
  note loc = reader_step_local [OF st qi live sh]
  have q0: "queues s' ! 0 = q'" using len by (simp add: s'_def)
  have qk: "queues s' ! k = queues s ! k" if "0 < k" for k using that by (simp add: s'_def)
  have w: "workers s' = workers s" "wr s' = wr s" "mpc s' = mpc s" "rd s' = r'"
    by (simp_all add: s'_def)
  have links: "link_ok s' k" if k: "k \<le> ?N" for k
  proof (cases k)
    case 0
    have ce: "cons_ended s' 0 = cons_ended s 0" by (simp add: cons_ended_def w)
    have same: "q' = queues s ! 0" if "cons_ended s 0"
      using link_okD(3) [OF l0 that] loc(6) by simp
    show ?thesis
      unfolding 0
    proof (rule link_okI)
      show "queue_inv (queues s' ! 0)" using loc(2) by (simp add: q0)
      show "shutdown (queues s' ! 0) = prod_done s' 0"
        using loc(4) by (simp add: q0 prod_done_def w)
      show "shutdown (queues s' ! 0) \<and> size (queues s' ! 0) = 0" if "cons_ended s' 0"
        using that link_okD(3,4) [OF l0] same by (simp add: ce q0)
    qed
  next
    case (Suc j)
    from inv k have "link_ok s k" by (simp add: early_inv_def)
    then show ?thesis
      using Suc by (auto simp: link_ok_def qk prod_done_def cons_ended_def w)
  qed
  have f0: "flow ps s' 0 = flow ps s 0"
    using loc(1) by (simp add: flow_def q0 w)
  have "flow ps s' ?N = flow ps s ?N"
    by (rule flow_above [OF _ f0]) (simp_all add: qk w)
  with con have "conserved ps inp s'" by (simp add: conserved_def w)
  moreover have "early_inv ps s'"
    using inv links loc(3) by (simp add: early_inv_def w s'_def)
  ultimately show ?thesis by (simp add: s' w)
qed

lemma early_writer_step:
  assumes inv: "early_inv ps s" and con: "conserved ps inp s"
  shows "early_inv ps (step ps Writer s) \<and> conserved ps inp (step ps Writer s) \<and>
         mpc (step ps Writer s) = mpc s"
proof -
  let ?N = "length ps"
  from inv have len: "length (workers s) = ?N" "length (queues s) = Suc ?N"
    and lN: "link_ok s ?N"
    by (simp_all add: early_inv_def)
  obtain ow' q' where st: "output_thread_step (wr s, queues s ! ?N) = (ow', q')"
    by (cases "output_thread_step (wr s, queues s ! ?N)") auto
  define s' where "s' = s\<lparr>wr := ow', queues := (queues s)[?N := q']\<rparr>"
  from st len have s': "step ps Writer s = s'" by (simp add: step_def s'_def)
  from lN len have qi: "queue_inv (queues s ! ?N)"
    and ex: "opc (wr s) = O_Exit \<longrightarrow> shutdown (queues s ! ?N) \<and> size (queues s ! ?N) = 0"
    by (auto simp: link_ok_def cons_ended_def)
  note loc = writer_step_local [OF st qi ex]
  have qN: "queues s' ! ?N = q'" using len by (simp add: s'_def)
  have qk: "queues s' ! k = queues s ! k" if "k \<noteq> ?N" for k using that by (simp add: s'_def)
  have w: "workers s' = workers s" "wr s' = ow'" "mpc s' = mpc s" "rd s' = rd s"
    by (simp_all add: s'_def)
  have links: "link_ok s' k" if k: "k \<le> ?N" for k
  proof (cases "k = ?N")
    case True
    have pd: "prod_done s' ?N = prod_done s ?N"
      by (cases ?N) (simp_all add: prod_done_def w)
    show ?thesis
      unfolding True
    proof (rule link_okI)
      show "queue_inv (queues s' ! ?N)" using loc(2) by (simp add: qN)
      show "shutdown (queues s' ! ?N) = prod_done s' ?N"
        using loc(4) link_okD(2) [OF lN] by (simp add: qN pd)
      show "shutdown (queues s' ! ?N) \<and> size (queues s' ! ?N) = 0" if "cons_ended s' ?N"
        using that loc(3) len by (simp add: cons_ended_def w qN)
    qed
  next
    case False
    from inv k have lk: "link_ok s k" by (simp add: early_inv_def)
    have pd: "prod_done s' k = prod_done s k"
      by (cases k) (simp_all add: prod_done_def w)
    have ce: "cons_ended s' k = cons_ended s k"
      using False k len by (simp add: cons_ended_def w)
    show ?thesis
      using link_okD [OF lk] by (intro link_okI) (simp_all add: qk [OF False] pd ce)
  qed
  have up: "upstream ps s' ?N = upstream ps s ?N"
    by (rule upstream_cong) (simp_all add: w qk)
  from loc(1) [of "upstream ps s ?N"] con have "conserved ps inp s'"
    by (simp add: conserved_def flow_def qN w up)
  moreover have "early_inv ps s'"
    using inv links by (simp add: early_inv_def w s'_def)
  ultimately show ?thesis by (simp add: s' w)
qed

lemma early_worker_step:
  assumes inv: "early_inv ps s" and con: "conserved ps inp s"
  shows "early_inv ps (step ps (Worker j (Some a) (Some a2)) s) \<and>
         conserved ps inp (step ps (Worker j (Some a) (Some a2)) s) \<and>
         mpc (step ps (Worker j (Some a) (Some a2)) s) = mpc s \<and>
         wr (step ps (Worker j (Some a) (Some a2)) s) = wr s"
proof (cases "j < length ps")
  case False
  with inv have "step ps (Worker j (Some a) (Some a2)) s = s"
    by (simp add: step_def early_inv_def)
  with inv con show ?thesis by simp
next
  case True
  let ?N = "length ps"
  let ?e = "Worker j (Some a) (Some a2)"
  from inv have len: "length (workers s) = ?N" "length (queues s) = Suc ?N"
    by (simp_all add: early_inv_def)
  from inv True have lj: "link_ok s j" and lj1: "link_ok s (Suc j)"
    and ok: "worker_ok (workers s ! j)"
    by (simp_all add: early_inv_def)
  obtain w' inq' outq' where st:
    "process_thread_step (ps ! j) (Some a) (Some a2) (workers s ! j, queues s ! j, queues s ! Suc j)
       = (w', inq', outq')"
    by (cases "process_thread_step (ps ! j) (Some a) (Some a2)
        (workers s ! j, queues s ! j, queues s ! Suc j)") auto
  define s' where "s' = s\<lparr>workers := (workers s)[j := w'],
      queues := (queues s)[j := inq', Suc j := outq']\<rparr>"
  from st True len have s': "step ps ?e s = s'" by (simp add: step_def s'_def)
  from lj True len have iinv: "queue_inv (queues s ! j)"
    and ie: "ended (workers s ! j) \<longrightarrow> shutdown (queues s ! j) \<and> size (queues s ! j) = 0"
    by (auto simp: link_ok_def cons_ended_def)
  from link_okD(1,2) [OF lj1] have oinv: "queue_inv (queues s ! Suc j)"
    and osh: "shutdown (queues s ! Suc j) = (wpc (workers s ! j) = W_Exit)"
    by (simp_all add: prod_done_def)
  note loc = worker_step_local [OF st iinv oinv ok osh ie]
  have qj: "queues s' ! j = inq'" and qj1: "queues s' ! Suc j = outq'"
    using len True by (simp_all add: s'_def)
  have qk: "queues s' ! k = queues s ! k" if "k \<noteq> j" "k \<noteq> Suc j" for k
    using that by (simp add: s'_def)
  have wj: "workers s' ! j = w'" using len True by (simp add: s'_def)
  have wk: "workers s' ! k = workers s ! k" if "k \<noteq> j" for k using that by (simp add: s'_def)
  have w: "length (workers s') = ?N" "wr s' = wr s" "mpc s' = mpc s" "rd s' = rd s"
    "length (queues s') = Suc ?N"
    using len by (simp_all add: s'_def)
  have links: "link_ok s' k" if k: "k \<le> ?N" for k
  proof -
    from inv k have lk: "link_ok s k" by (simp add: early_inv_def)
    consider (inp) "k = j" | (out) "k = Suc j" | (other) "k \<noteq> j" "k \<noteq> Suc j" by blast
    then show ?thesis
    proof cases
      case inp
      have pd: "prod_done s' j = prod_done s j"
        by (cases j) (simp_all add: prod_done_def w wk)
      show ?thesis
        unfolding inp
      proof (rule link_okI)
        show "queue_inv (queues s' ! j)" using loc(2) by (simp add: qj)
        show "shutdown (queues s' ! j) = prod_done s' j"
          using loc(7) link_okD(2) [OF lj] by (simp add: qj pd)
        show "shutdown (queues s' ! j) \<and> size (queues s' ! j) = 0" if "cons_ended s' j"
          using that loc(6) True by (simp add: cons_ended_def w wj qj)
      qed
    next
      case out
      have ce: "cons_ended s' (Suc j) = cons_ended s (Suc j)"
        by (simp add: cons_ended_def w len wk)
      have same: "outq' = queues s ! Suc j" if "cons_ended s (Suc j)"
        using link_okD(3) [OF lj1 that] loc(10) by simp
      show ?thesis
        unfolding out
      proof (rule link_okI)
        show "queue_inv (queues s' ! Suc j)" using loc(3) by (simp add: qj1)
        show "shutdown (queues s' ! Suc j) = prod_done s' (Suc j)"
          using loc(5) by (simp add: qj1 prod_done_def wj)
        show "shutdown (queues s' ! Suc j) \<and> size (queues s' ! Suc j) = 0"
          if "cons_ended s' (Suc j)"
          using that link_okD(3,4) [OF lj1] same by (simp add: ce qj1)
      qed
    next
      case other
      have "prod_done s' k = prod_done s k"
        using other by (cases k) (simp_all add: prod_done_def w wk)
      moreover have "cons_ended s' k = cons_ended s k"
        using other by (simp add: cons_ended_def w len wk)
      ultimately show ?thesis
        using link_okD [OF lk] other by (intro link_okI) (simp_all add: qk)
    qed
  qed
  have oks: "worker_ok (workers s' ! k)" if "k < ?N" for k
    using that inv loc(4) by (cases "k = j") (simp_all add: wj wk early_inv_def)
  have up: "upstream ps s' j = upstream ps s j"
    by (rule upstream_cong) (simp_all add: w qk wk)
  have fj1: "flow ps s' (Suc j) = flow ps s (Suc j)"
    using loc(1) [of "upstream ps s j"] by (simp add: flow_def qj qj1 wj up)
  have "flow ps s' ?N = flow ps s ?N"
    using True by (intro flow_above [OF _ fj1]) (simp_all add: qk wk)
  with con have "conserved ps inp s'" by (simp add: conserved_def w)
  moreover have "early_inv ps s'"
    using inv links oks by (simp add: early_inv_def w)
  ultimately show ?thesis by (simp add: s' w)
qed

lemma empty_queue_inv: "0 < c \<Longrightarrow> queue_inv (empty_queue c)"
  by (simp add: empty_queue_def queue_inv_def slots_def)

lemma empty_queue_items: "items (empty_queue c) = []"
  by (simp add: empty_queue_def items_def slots_def)

lemma start_nth:
  "k \<le> length ps \<Longrightarrow> queues (pipeline_start ps inp) ! k = empty_queue QUEUE_CAPACITY"
  "k < length ps \<Longrightarrow> workers (pipeline_start ps inp) ! k = new_worker"
  by (simp_all add: pipeline_start_def nth_Cons split: nat.split)

lemma prod_done_mpc [simp]: "prod_done (s\<lparr>mpc := x\<rparr>) k = prod_done s k"
  by (cases k) (simp_all add: prod_done_def)

lemma cons_ended_mpc [simp]: "cons_ended (s\<lparr>mpc := x\<rparr>) k = cons_ended s k"
  by (simp add: cons_ended_def)

lemma link_ok_mpc [simp]: "link_ok (s\<lparr>mpc := x\<rparr>) k = link_ok s k"
  by (simp add: link_ok_def)

lemma early_inv_mpc [simp]: "early_inv ps (s\<lparr>mpc := x\<rparr>) = early_inv ps s"
  by (simp add: early_inv_def)

lemma start_upstream:
  "k \<le> length ps \<Longrightarrow>
     upstream ps (pipeline_start ps inp) k = map (fold transform_bytes (take k ps)) (input_lines inp)"
proof (induction k)
  case 0
  then show ?case by (simp add: pipeline_start_def rd_pending_def)
next
  case (Suc k)
  then have k: "k < length ps" by simp
  then have "take (Suc k) ps = take k ps @ [ps ! k]" by (rule take_Suc_conv_app_nth)
  moreover have "held_in new_worker = []" "held_out new_worker = []"
    by (simp_all add: held_in_def held_out_def new_worker_def)
  moreover have "workers (pipeline_start ps inp) ! k = new_worker"
    "queues (pipeline_start ps inp) ! k = empty_queue QUEUE_CAPACITY"
    using k by (simp_all add: start_nth)
  ultimately show ?case using Suc.IH k by (simp add: empty_queue_items)
qed

lemma start_inv:
  assumes "input_ends inp"
  shows "pipeline_inv ps inp (pipeline_start ps inp)"
proof -
  let ?s = "pipeline_start ps inp"
  have q: "queues ?s ! k = empty_queue QUEUE_CAPACITY" if "k \<le> length ps" for k
    using that by (rule start_nth)
  have w: "workers ?s ! k = new_worker" if "k < length ps" for k
    using that by (rule start_nth)
  have ne: "\<not> ended new_worker" "worker_ok new_worker" "wpc new_worker = W_Loop"
    by (simp_all add: ended_def worker_ok_def new_worker_def)
  have links: "link_ok ?s k" if k: "k \<le> length ps" for k
  proof (rule link_okI)
    show "queue_inv (queues ?s ! k)"
      using k by (simp add: q empty_queue_inv QUEUE_CAPACITY_def)
    have "\<not> prod_done ?s k"
    proof (cases k)
      case 0
      then show ?thesis by (simp add: prod_done_def pipeline_start_def)
    next
      case (Suc j)
      with k w [of j] ne show ?thesis by (simp add: prod_done_def)
    qed
    then show "shutdown (queues ?s ! k) = prod_done ?s k"
      using k by (simp add: q empty_queue_def)
    have "\<not> cons_ended ?s k"
      using w [of k] ne k by (auto simp: cons_ended_def pipeline_start_def)
    then show "cons_ended ?s k \<Longrightarrow> shutdown (queues ?s ! k) \<and> size (queues ?s ! k) = 0"
      by simp
  qed
  have "early_inv ps ?s"
    using links w ne assms
    by (simp add: early_inv_def) (simp add: pipeline_start_def reader_live_def)
  moreover have "conserved ps inp ?s"
    using start_upstream [of "length ps" ps inp]
    by (simp add: conserved_def flow_def q empty_queue_items expected_output_def)
      (simp add: pipeline_start_def)
  moreover have "mpc ?s = M_JoinInput" by (simp add: pipeline_start_def)
  ultimately show ?thesis by (simp add: pipeline_inv_def)
qed

lemma drained:
  assumes inv: "early_inv ps s"
  shows "k \<le> length ps \<Longrightarrow> shutdown (queues s ! k) \<Longrightarrow> size (queues s ! k) = 0 \<Longrightarrow>
     flow ps s k = [] \<and> (\<forall>j < k. wpc (workers s ! j) = W_Exit) \<and> rpc (rd s) = R_Exit"
proof (induction k)
  case 0
  from inv have "link_ok s 0" by (simp add: early_inv_def)
  from link_okD(2) [OF this] 0 have "rpc (rd s) = R_Exit" by (simp add: prod_done_def)
  moreover from 0 have "items (queues s ! 0) = []" using length_items [of "queues s ! 0"] by simp
  ultimately show ?case by (simp add: flow_def rd_pending_def)
next
  case (Suc k)
  from inv Suc.prems have l1: "link_ok s (Suc k)" and l: "link_ok s k"
    and len: "length (workers s) = length ps"
    by (simp_all add: early_inv_def)
  from link_okD(2) [OF l1] Suc.prems have ex: "wpc (workers s ! k) = W_Exit"
    by (simp add: prod_done_def)
  then have "cons_ended s k" using Suc.prems len by (simp add: cons_ended_def ended_def)
  from link_okD(3,4) [OF l this] Suc.prems Suc.IH
  have ih: "flow ps s k = []" "\<forall>j < k. wpc (workers s ! j) = W_Exit" "rpc (rd s) = R_Exit"
    by simp_all
  from Suc.prems have "items (queues s ! Suc k) = []"
    using length_items [of "queues s ! Suc k"] by simp
  with ih ex show ?case
    by (auto simp: flow_Suc held_in_def held_out_def less_Suc_eq)
qed

lemma early_writer_exit:
  assumes inv: "early_inv ps s" and con: "conserved ps inp s" and ex: "opc (wr s) = O_Exit"
  shows "stdout (wr s) = expected_output ps inp" and "\<forall>j < length ps. wpc (workers s ! j) = W_Exit"
    and "rpc (rd s) = R_Exit"
proof -
  from inv have l: "link_ok s (length ps)" and len: "length (workers s) = length ps"
    by (simp_all add: early_inv_def)
  from ex len have "cons_ended s (length ps)" by (simp add: cons_ended_def)
  from drained [OF inv _ link_okD(3,4) [OF l this]]
  have d: "flow ps s (length ps) = []" "\<forall>j < length ps. wpc (workers s ! j) = W_Exit"
    "rpc (rd s) = R_Exit" by simp_all
  from d(1) con show "stdout (wr s) = expected_output ps inp"
    by (simp add: conserved_def unlines_def)
  from d show "\<forall>j < length ps. wpc (workers s ! j) = W_Exit" "rpc (rd s) = R_Exit" by simp_all
qed

lemma early_main_step:
  assumes m: "mpc s = M_JoinInput \<or> mpc s = M_JoinOutput"
    and inv: "early_inv ps s" and con: "conserved ps inp s"
  shows "pipeline_inv ps inp (step ps Main s)"
proof -
  from inv have len: "length (workers s) = length ps" "length (queues s) = Suc (length ps)"
    by (simp_all add: early_inv_def)
  from m show ?thesis
  proof
    assume j: "mpc s = M_JoinInput"
    show ?thesis
    proof (cases "rpc (rd s) = R_Exit")
      case True
      with j have "step ps Main s = s\<lparr>mpc := M_JoinOutput\<rparr>" by (simp add: step_def main_step_def)
      moreover have "early_inv ps (s\<lparr>mpc := M_JoinOutput\<rparr>)"
        using inv by simp
      moreover have "conserved ps inp (s\<lparr>mpc := M_JoinOutput\<rparr>)"
      proof -
        have "flow ps (s\<lparr>mpc := M_JoinOutput\<rparr>) (length ps) = flow ps s (length ps)"
          by (rule flow_above [of 0]) (simp_all add: flow_def)
        with con show ?thesis by (simp add: conserved_def)
      qed
      ultimately show ?thesis by (simp add: pipeline_inv_def)
    next
      case False
      with j have "step ps Main s = s" by (simp add: step_def main_step_def)
      with j inv con show ?thesis by (simp add: pipeline_inv_def)
    qed
  next
    assume j: "mpc s = M_JoinOutput"
    show ?thesis
    proof (cases "opc (wr s) = O_Exit")
      case True
      note e = early_writer_exit [OF inv con True]
      from j True have "step ps Main s
          = s\<lparr>mpc := (if 0 < length (workers s) then M_Stop 0 else M_Cleanup)\<rparr>"
        by (simp add: step_def main_step_def)
      with e True len show ?thesis
        by (simp add: pipeline_inv_def late_inv_def)
    next
      case False
      with j have "step ps Main s = s" by (simp add: step_def main_step_def)
      with j inv con show ?thesis by (simp add: pipeline_inv_def)
    qed
  qed
qed

lemma late_step:
  assumes late: "late_inv ps inp s"
  shows "late_inv ps inp (step ps e s)"
proof (cases e)
  case (Reader m)
  from late have "rpc (rd s) = R_Exit" by (simp add: late_inv_def)
  then have "input_thread_step m (rd s, queues s ! 0) = (rd s, queues s ! 0)"
    by (simp add: input_thread_step_def)
  with late Reader show ?thesis by (simp add: step_def late_inv_def)
next
  case (Worker j m m2)
  show ?thesis
  proof (cases "j < length (workers s)")
    case True
    with late have "wpc (workers s ! j) = W_Exit" by (simp add: late_inv_def)
    then have "process_thread_step (ps ! j) m m2 (workers s ! j, queues s ! j, queues s ! Suc j)
        = (workers s ! j, queues s ! j, queues s ! Suc j)"
      by (simp add: process_thread_step_def)
    with late Worker True show ?thesis by (simp add: step_def late_inv_def)
  next
    case False
    with late Worker show ?thesis by (simp add: step_def)
  qed
next
  case Writer
  from late have "opc (wr s) = O_Exit" by (simp add: late_inv_def)
  then have "output_thread_step (wr s, queues s ! length (workers s))
      = (wr s, queues s ! length (workers s))"
    by (simp add: output_thread_step_def)
  with late Writer show ?thesis by (simp add: step_def late_inv_def)
next
  case Main
  from late have ok: "main_ok (length ps) (mpc s)" and len: "length (workers s) = length ps"
    and ex: "\<forall>k < length ps. wpc (workers s ! k) = W_Exit"
    by (simp_all add: late_inv_def)
  have upd: "wpc ((workers s)[i := (workers s ! i)\<lparr>stop_requested := True\<rparr>] ! k) = W_Exit"
    if "k < length ps" for i k
    using that ex len by (cases "k = i") simp_all
  from ok show ?thesis
    using late Main len upd
    by (cases "mpc s") (auto simp: step_def main_step_def late_inv_def)
qed

lemma step_inv:
  assumes "pipeline_inv ps inp s" "alloc_ok e"
  shows "pipeline_inv ps inp (step ps e s)"
proof (cases "late_inv ps inp s")
  case True
  then show ?thesis by (simp add: pipeline_inv_def late_step)
next
  case False
  with assms(1) have m: "mpc s = M_JoinInput \<or> mpc s = M_JoinOutput"
    and inv: "early_inv ps s" and con: "conserved ps inp s"
    by (auto simp: pipeline_inv_def)
  show ?thesis
  proof (cases e)
    case (Reader mm)
    with assms(2) obtain a where "e = Reader (Some a)" by auto
    with early_reader_step [OF inv con, of a] m show ?thesis by (simp add: pipeline_inv_def)
  next
    case (Worker j mm mm2)
    with assms(2) obtain a a2 where "e = Worker j (Some a) (Some a2)" by auto
    with early_worker_step [OF inv con, of j a a2] m show ?thesis by (simp add: pipeline_inv_def)
  next
    case Writer
    with early_writer_step [OF inv con] m show ?thesis by (simp add: pipeline_inv_def)
  next
    case Main
    with early_main_step [OF m inv con] show ?thesis by simp
  qed
qed

lemma run_inv:
  "pipeline_inv ps inp s \<Longrightarrow> \<forall>e \<in> set sched. alloc_ok e \<Longrightarrow> pipeline_inv ps inp (run ps sched s)"
  by (induction sched arbitrary: s) (simp_all add: step_inv)

lemma inv_output:
  assumes "pipeline_inv ps inp s"
  shows "\<exists>rest. stdout (wr s) @ rest = expected_output ps inp"
    and "opc (wr s) = O_Exit \<Longrightarrow> stdout (wr s) = expected_output ps inp"
    and "mpc s = M_Return c \<Longrightarrow> c = 0 \<and> stdout (wr s) = expected_output ps inp"
proof -
  from assms show "\<exists>rest. stdout (wr s) @ rest = expected_output ps inp"
    by (auto simp: pipeline_inv_def conserved_def late_inv_def)
  from assms show "opc (wr s) = O_Exit \<Longrightarrow> stdout (wr s) = expected_output ps inp"
    using early_writer_exit(1) by (auto simp: pipeline_inv_def late_inv_def)
  from assms show "mpc s = M_Return c \<Longrightarrow> c = 0 \<and> stdout (wr s) = expected_output ps inp"
    by (auto simp: pipeline_inv_def late_inv_def)
qed

subsection \<open>Some thread can always move\<close>

text \<open>If every worker is stuck the stuck workers form two runs: workers parked in a pop
  behind an open empty queue, back to the reader, and workers parked in a push before a
  full open queue, up to the writer. The reader is never stuck before it returns and the
  writer is never stuck on a full queue, so not every worker is stuck before main is
  through its joins.\<close>

lemma worker_moves:
  assumes inv: "early_inv ps s" and j: "j < length ps" and ns: "\<not> worker_stuck s j"
  shows "step ps (Worker j (Some 0) (Some 0)) s \<noteq> s"
proof -
  from inv have len: "length (workers s) = length ps" "length (queues s) = Suc (length ps)"
    by (simp_all add: early_inv_def)
  from inv j have ok: "worker_ok (workers s ! j)" by (simp add: early_inv_def)
  let ?w = "workers s ! j"
  obtain w' inq' outq' where st:
    "process_thread_step (ps ! j) (Some 0) (Some 0) (?w, queues s ! j, queues s ! Suc j)
       = (w', inq', outq')"
    by (cases "process_thread_step (ps ! j) (Some 0) (Some 0)
        (?w, queues s ! j, queues s ! Suc j)") auto
  have "wpc w' \<noteq> wpc ?w"
  proof (cases "wpc ?w")
    case W_Loop
    with st ok show ?thesis by (auto simp: process_thread_step_def worker_ok_def split: if_splits)
  next
    case W_Pop
    with ns have "\<not> (size (queues s ! j) = 0 \<and> \<not> shutdown (queues s ! j))"
      by (simp add: worker_stuck_def)
    with st W_Pop show ?thesis
      by (auto simp: process_thread_step_def queue_pop_def split: if_splits)
  next
    case W_Got
    obtain a' where "transform (ps ! j) (Some 0) (Some 0) (the (str ?w))
        = Some \<lparr>addr = a', bytes = transform_bytes (ps ! j) (bytes (the (str ?w)))\<rparr>"
      using transform_Some by blast
    with st W_Got ok show ?thesis
      by (auto simp: process_thread_step_def worker_ok_def QUEUE_SHUTDOWN_def split: if_splits)
  next
    case W_Close
    with st show ?thesis by (auto simp: process_thread_step_def)
  next
    case W_Push
    with ns have "\<not> (size (queues s ! Suc j) \<ge> capacity (queues s ! Suc j) \<and> \<not> shutdown (queues s ! Suc j))"
      by (simp add: worker_stuck_def)
    moreover from ok W_Push obtain t where "transformed ?w = Some t"
      by (auto simp: worker_ok_def)
    ultimately show ?thesis
      using st W_Push
      by (auto simp: process_thread_step_def queue_push_def queue_push_resume_def strdup_def
          split: if_splits)
  next
    case W_Exit
    with ns show ?thesis by (simp add: worker_stuck_def)
  qed
  moreover from st j len
  have "workers (step ps (Worker j (Some 0) (Some 0)) s) ! j = w'"
    by (simp add: step_def)
  ultimately show ?thesis by auto
qed

lemma writer_moves:
  assumes inv: "early_inv ps s" and p: "opc (wr s) = O_Pop"
    and ns: "\<not> (size (queues s ! length ps) = 0 \<and> \<not> shutdown (queues s ! length ps))"
  shows "step ps Writer s \<noteq> s"
proof -
  from inv have len: "length (workers s) = length ps" by (simp add: early_inv_def)
  obtain ow' q' where st: "output_thread_step (wr s, queues s ! length ps) = (ow', q')"
    by (cases "output_thread_step (wr s, queues s ! length ps)") auto
  obtain c out q1 where pq: "queue_pop (queues s ! length ps) = (c, out, q1)"
    by (cases "queue_pop (queues s ! length ps)") auto
  from ns pq obtain n where c: "c = Ret n"
    by (cases c) (auto simp: queue_pop_def split: if_splits)
  have "length (stdout ow') \<noteq> length (stdout (wr s)) \<or> opc ow' \<noteq> opc (wr s)"
    using st p pq c by (cases "n = 0") (auto simp: output_thread_step_def)
  then have "ow' \<noteq> wr s" by auto
  moreover from st len have "wr (step ps Writer s) = ow'" by (simp add: step_def)
  ultimately show ?thesis by auto
qed

lemma reader_moves:
  assumes ne: "rpc (rd s) \<noteq> R_Exit"
    and ns: "\<not> (rpc (rd s) = R_Push \<and> size (queues s ! 0) \<ge> capacity (queues s ! 0) \<and>
               \<not> shutdown (queues s ! 0))"
  shows "step ps (Reader (Some 0)) s \<noteq> s"
proof -
  obtain r' q' where st: "input_thread_step (Some 0) (rd s, queues s ! 0) = (r', q')"
    by (cases "input_thread_step (Some 0) (rd s, queues s ! 0)") auto
  have "rpc r' \<noteq> rpc (rd s)"
  proof (cases "rpc (rd s)")
    case R_Fgets
    with st show ?thesis by (auto simp: input_thread_step_def split: option.splits)
  next
    case R_Line
    with st show ?thesis
      by (auto simp: input_thread_step_def split: if_splits prod.splits status.splits)
  next
    case R_Push
    with ns have "\<not> (size (queues s ! 0) \<ge> capacity (queues s ! 0) \<and> \<not> shutdown (queues s ! 0))"
      by simp
    with st R_Push show ?thesis
      by (auto simp: input_thread_step_def queue_push_resume_def strdup_def split: if_splits)
  next
    case R_Exit
    with ne show ?thesis by simp
  qed
  moreover from st have "rd (step ps (Reader (Some 0)) s) = r'" by (simp add: step_def)
  ultimately show ?thesis by auto
qed

lemma early_no_deadlock:
  assumes m: "mpc s = M_JoinInput \<or> mpc s = M_JoinOutput"
    and inv: "early_inv ps s" and con: "conserved ps inp s"
  shows "\<exists>e. alloc_ok e \<and> step ps e s \<noteq> s"
proof (rule ccontr)
  assume "\<not> ?thesis"
  then have still: "\<And>e. alloc_ok e \<Longrightarrow> step ps e s = s" by blast
  let ?N = "length ps"
  from inv have len: "length (workers s) = ?N" "length (queues s) = Suc ?N"
    by (simp_all add: early_inv_def)
  have link: "link_ok s k" if "k \<le> ?N" for k using inv that by (simp add: early_inv_def)
  have stuck: "worker_stuck s j" if "j < ?N" for j
    using worker_moves [OF inv that] still [of "Worker j (Some 0) (Some 0)"] by auto
  have wr_stuck: "opc (wr s) = O_Exit \<or> (size (queues s ! ?N) = 0 \<and> \<not> shutdown (queues s ! ?N))"
  proof (cases "opc (wr s)")
    case O_Pop
    from writer_moves [OF inv O_Pop] still [of Writer]
    have "size (queues s ! ?N) = 0 \<and> \<not> shutdown (queues s ! ?N)" by fastforce
    then show ?thesis by simp
  next
    case O_Exit
    then show ?thesis by simp
  qed
  have rd_stuck: "rpc (rd s) = R_Exit \<or> (rpc (rd s) = R_Push \<and>
      size (queues s ! 0) \<ge> capacity (queues s ! 0) \<and> \<not> shutdown (queues s ! 0))"
    using reader_moves [of s ps] still [of "Reader (Some 0)"] by auto
  have main_stuck: "\<not> (rpc (rd s) = R_Exit \<and> opc (wr s) = O_Exit)"
  proof
    assume "rpc (rd s) = R_Exit \<and> opc (wr s) = O_Exit"
    with m have "mpc (step ps Main s) \<noteq> mpc s"
      by (auto simp: step_def main_step_def)
    with still [of Main] show False by simp
  qed
  have wr_open: "opc (wr s) \<noteq> O_Exit"
    using early_writer_exit(3) [OF inv con] main_stuck by blast
  have P: "\<not> (0 < size (queues s ! k) \<and> \<not> shutdown (queues s ! k))" if "k \<le> ?N" for k
    using that
  proof (induction k rule: inc_induct)
    case base
    with wr_stuck wr_open show ?case by auto
  next
    case (step k)
    from step.hyps have kN: "k < ?N" by simp
    show ?case
    proof
      assume a: "0 < size (queues s ! k) \<and> \<not> shutdown (queues s ! k)"
      from stuck [OF kN] have "wpc (workers s ! k) = W_Exit \<or>
        (wpc (workers s ! k) = W_Push \<and> size (queues s ! Suc k) \<ge> capacity (queues s ! Suc k) \<and>
          \<not> shutdown (queues s ! Suc k))"
        using a by (auto simp: worker_stuck_def)
      then show False
      proof
        assume "wpc (workers s ! k) = W_Exit"
        then have "cons_ended s k" using kN len by (simp add: cons_ended_def ended_def)
        from link_okD(3) [OF link this] kN a show False by simp
      next
        assume b: "wpc (workers s ! k) = W_Push \<and>
          size (queues s ! Suc k) \<ge> capacity (queues s ! Suc k) \<and> \<not> shutdown (queues s ! Suc k)"
        from link_okD(1) [OF link [of "Suc k"]] kN have "0 < capacity (queues s ! Suc k)"
          by (simp add: queue_inv_def)
        with b step.IH show False by auto
      qed
    qed
  qed
  have Q: "\<not> shutdown (queues s ! k)" if "k \<le> ?N" for k
    using that
  proof (induction k rule: inc_induct)
    case base
    with wr_stuck wr_open show ?case by auto
  next
    case (step k)
    from step.hyps have kN: "k < ?N" by simp
    show ?case
    proof
      assume a: "shutdown (queues s ! k)"
      from stuck [OF kN] a have "wpc (workers s ! k) = W_Exit \<or>
        (wpc (workers s ! k) = W_Push \<and> size (queues s ! Suc k) \<ge> capacity (queues s ! Suc k) \<and>
          \<not> shutdown (queues s ! Suc k))"
        by (auto simp: worker_stuck_def)
      then show False
      proof
        assume "wpc (workers s ! k) = W_Exit"
        then have "prod_done s (Suc k)" by (simp add: prod_done_def)
        with link_okD(2) [OF link [of "Suc k"]] kN step.IH show False by simp
      next
        assume b: "wpc (workers s ! k) = W_Push \<and>
          size (queues s ! Suc k) \<ge> capacity (queues s ! Suc k) \<and> \<not> shutdown (queues s ! Suc k)"
        from link_okD(1) [OF link [of "Suc k"]] kN have "0 < capacity (queues s ! Suc k)"
          by (simp add: queue_inv_def)
        with b P [of "Suc k"] kN show False by auto
      qed
    qed
  qed
  from rd_stuck show False
  proof
    assume "rpc (rd s) = R_Exit"
    then have "prod_done s 0" by (simp add: prod_done_def)
    with link_okD(2) [OF link [of 0]] Q [of 0] show False by simp
  next
    assume b: "rpc (rd s) = R_Push \<and> size (queues s ! 0) \<ge> capacity (queues s ! 0) \<and>
      \<not> shutdown (queues s ! 0)"
    from link_okD(1) [OF link [of 0]] have "0 < capacity (queues s ! 0)"
      by (simp add: queue_inv_def)
    with b P [of 0] show False by auto
  qed
qed

lemma late_no_deadlock:
  assumes late: "late_inv ps inp s" and nr: "mpc s \<noteq> M_Return 0"
  shows "step ps Main s \<noteq> s"
proof -
  from late have ok: "main_ok (length ps) (mpc s)" and len: "length (workers s) = length ps"
    and ex: "\<forall>k < length ps. wpc (workers s ! k) = W_Exit"
    by (simp_all add: late_inv_def)
  have "mpc (step ps Main s) \<noteq> mpc s"
    using ok nr ex len by (cases "mpc s") (auto simp: step_def main_step_def)
  then show ?thesis by auto
qed

lemma no_deadlock:
  assumes "pipeline_inv ps inp s" "mpc s \<noteq> M_Return 0"
  shows "\<exists>e. alloc_ok e \<and> step ps e s \<noteq> s"
proof (cases "late_inv ps inp s")
  case True
  from late_no_deadlock [OF True assms(2)] show ?thesis
    by (intro exI [of _ Main]) simp
next
  case False
  with assms(1) show ?thesis
    by (auto simp: pipeline_inv_def intro: early_no_deadlock)
qed

subsection \<open>Every step that changes the state uses up work\<close>

lemma base_cong:
  assumes "\<And>i. i < k \<Longrightarrow> size (queues s' ! i) = size (queues s ! i)"
    and "\<And>i a. i < k \<Longrightarrow> worker_weight a (workers s' ! i) = worker_weight a (workers s ! i)"
  shows "base n s' k = base n s k"
  using assms by (induction k) auto

lemma pot_Suc:
  "pot n s (Suc k) = pot n s k + worker_weight (item_weight n k) (workers s ! k) +
     item_weight n (Suc k) * size (queues s ! Suc k)"
  by (simp add: pot_def)

lemma pot_above:
  assumes "j \<le> k" "pot n s' j + c = pot n s j + c'"
    and "\<And>i. j < i \<Longrightarrow> i \<le> k \<Longrightarrow> size (queues s' ! i) = size (queues s ! i)"
    and "\<And>i a. j \<le> i \<Longrightarrow> i < k \<Longrightarrow> worker_weight a (workers s' ! i) = worker_weight a (workers s ! i)"
  shows "pot n s' k + c = pot n s k + c'"
  using assms
proof (induction k)
  case 0
  then show ?case by simp
next
  case (Suc k)
  show ?case
  proof (cases "j = Suc k")
    case True
    with Suc.prems show ?thesis by simp
  next
    case False
    with Suc.prems have jk: "j \<le> k" by simp
    then have "pot n s' k + c = pot n s k + c'"
      using Suc.prems by (intro Suc.IH) auto
    moreover have "size (queues s' ! Suc k) = size (queues s ! Suc k)"
      "worker_weight (item_weight n k) (workers s' ! k) = worker_weight (item_weight n k) (workers s ! k)"
      using Suc.prems jk by auto
    ultimately show ?thesis by (simp add: pot_Suc)
  qed
qed

lemma reader_step_work:
  assumes st: "input_thread_step (Some m) (r, q) = (r', q')"
  shows "(r', q') = (r, q) \<or>
         reader_weight a r' + a * size q' < reader_weight a r + a * size q"
proof (cases "rpc r")
  case R_Fgets
  show ?thesis
  proof (cases "read_line (stdin r)")
    case None
    with st R_Fgets show ?thesis by (auto simp: input_thread_step_def reader_weight_def)
  next
    case (Some lr)
    obtain l rest where lr: "lr = (l, rest)" by (cases lr) auto
    from read_line_shorter [OF Some [unfolded lr]] obtain d where
      d: "length (stdin r) = Suc (length rest + d)" by (metis less_imp_Suc_add add.commute)
    from st R_Fgets Some lr have "r' = r\<lparr>rpc := R_Line, stdin := rest, line := (line r)\<lparr>bytes := l\<rparr>\<rparr>"
      "q' = q" by (simp_all add: input_thread_step_def)
    with R_Fgets d show ?thesis by (simp add: reader_weight_def algebra_simps)
  qed
next
  case R_Line
  show ?thesis
  proof (cases "bytes (line r) = ''<END>''")
    case True
    with st R_Line show ?thesis
      by (simp add: input_thread_step_def reader_weight_def queue_shutdown_def) auto
  next
    case False
    with st R_Line show ?thesis
      by (auto simp: input_thread_step_def reader_weight_def queue_push_def queue_push_resume_def
          strdup_def split: if_splits)
  qed
next
  case R_Push
  with st show ?thesis
    by (auto simp: input_thread_step_def reader_weight_def queue_push_resume_def
        strdup_def split: if_splits)
next
  case R_Exit
  with st show ?thesis by (simp add: input_thread_step_def)
qed

lemma worker_step_work:
  assumes st: "process_thread_step p (Some m) (Some m2) (w, inq, outq) = (w', inq', outq')"
    and ok: "worker_ok w" and ab: "a = b + 5"
  shows "(w', inq', outq') = (w, inq, outq) \<or>
         a * size inq' + worker_weight a w' + b * size outq'
           < a * size inq + worker_weight a w + b * size outq"
proof (cases "wpc w")
  case W_Loop
  with st show ?thesis
    by (auto simp: process_thread_step_def worker_weight_def held_in_def held_out_def
        split: if_splits)
next
  case W_Pop
  obtain c out q1 where p: "queue_pop inq = (c, out, q1)" by (cases "queue_pop inq") auto
  show ?thesis
  proof (cases c)
    case Wait
    with p have "q1 = inq" by (auto simp: queue_pop_def split: if_splits)
    with st W_Pop p Wait show ?thesis by (simp add: process_thread_step_def)
  next
    case (Ret n)
    with st W_Pop p have w': "w' = w\<lparr>wpc := W_Got, ret := n, str := out\<rparr>" "inq' = q1" "outq' = outq"
      by (simp_all add: process_thread_step_def)
    from pop_codes [OF p [unfolded Ret]] show ?thesis
    proof
      assume "n = 0"
      with p Ret obtain k where "size inq = Suc k" "size q1 = k"
        by (cases "size inq") (auto simp: queue_pop_def QUEUE_SHUTDOWN_def split: if_splits)
      with w' W_Pop show ?thesis
        by (cases out) (simp_all add: worker_weight_def held_in_def held_out_def)
    next
      assume "n = QUEUE_SHUTDOWN \<and> shutdown inq \<and> size inq = 0 \<and> q1 = inq \<and> out = None"
      with w' W_Pop show ?thesis
        by (simp add: worker_weight_def held_in_def held_out_def QUEUE_SHUTDOWN_def)
    qed
  qed
next
  case W_Got
  show ?thesis
  proof (cases "ret w = QUEUE_SHUTDOWN")
    case True
    with st W_Got show ?thesis
      by (simp add: process_thread_step_def worker_weight_def held_in_def held_out_def) auto
  next
    case False
    with ok W_Got obtain x where x: "ret w = 0" "str w = Some x" "\<not> stop_requested w"
      by (auto simp: worker_ok_def)
    obtain a' where t: "transform p (Some m) (Some m2) x
        = Some \<lparr>addr = a', bytes = transform_bytes p (bytes x)\<rparr>"
      using transform_Some by blast
    with st W_Got False x show ?thesis
      by (simp add: process_thread_step_def worker_weight_def held_in_def held_out_def) auto
  qed
next
  case W_Close
  with st show ?thesis
    by (simp add: process_thread_step_def worker_weight_def held_in_def held_out_def
        queue_shutdown_def) auto
next
  case W_Push
  with ok obtain t where t: "transformed w = Some t" by (auto simp: worker_ok_def)
  with st W_Push ab show ?thesis
    by (auto simp: process_thread_step_def worker_weight_def held_in_def held_out_def
        queue_push_def queue_push_resume_def strdup_def split: if_splits)
next
  case W_Exit
  with st show ?thesis by (simp add: process_thread_step_def)
qed

lemma writer_step_work:
  assumes st: "output_thread_step (ow, q) = (ow', q')"
  shows "(ow', q') = (ow, q) \<or> writer_weight ow' + size q' < writer_weight ow + size q"
proof (cases "opc ow")
  case O_Pop
  obtain c out q1 where p: "queue_pop q = (c, out, q1)" by (cases "queue_pop q") auto
  show ?thesis
  proof (cases c)
    case Wait
    with p have "q1 = q" by (auto simp: queue_pop_def split: if_splits)
    with st O_Pop p Wait show ?thesis by (simp add: output_thread_step_def)
  next
    case (Ret n)
    from pop_codes [OF p [unfolded Ret]] show ?thesis
    proof
      assume n: "n = 0"
      with p Ret obtain k where "size q = Suc k" "size q1 = k"
        by (cases "size q") (auto simp: queue_pop_def QUEUE_SHUTDOWN_def split: if_splits)
      with st O_Pop p Ret n show ?thesis
        by (simp add: output_thread_step_def writer_weight_def) auto
    next
      assume "n = QUEUE_SHUTDOWN \<and> shutdown q \<and> size q = 0 \<and> q1 = q \<and> out = None"
      with st O_Pop p Ret show ?thesis
        by (simp add: output_thread_step_def writer_weight_def QUEUE_SHUTDOWN_def) auto
    qed
  qed
next
  case O_Exit
  with st show ?thesis by (simp add: output_thread_step_def)
qed

lemma pot_cong:
  assumes "\<And>i. i \<le> k \<Longrightarrow> size (queues s' ! i) = size (queues s ! i)"
    and "\<And>i a. i < k \<Longrightarrow> worker_weight a (workers s' ! i) = worker_weight a (workers s ! i)"
  shows "pot n s' k = pot n s k"
  using assms base_cong [of k s' s n] by (simp add: pot_def)

lemma nth_update_same:
  assumes "f y = f (xs ! i)"
  shows "f (xs[i := y] ! k) = f (xs ! k)"
  using assms by (cases "i < length xs"; cases "k = i") (simp_all add: list_update_beyond)

lemma inv_lengths:
  assumes "pipeline_inv ps inp s"
  shows "length (workers s) = length ps" "length (queues s) = Suc (length ps)"
  using assms by (auto simp: pipeline_inv_def early_inv_def late_inv_def)

lemma reader_work:
  assumes inv: "pipeline_inv ps inp s" and ne: "step ps (Reader (Some a)) s \<noteq> s"
  shows "work ps (step ps (Reader (Some a)) s) < work ps s"
proof -
  let ?N = "length ps"
  note len = inv_lengths [OF inv]
  obtain r' q' where st: "input_thread_step (Some a) (rd s, queues s ! 0) = (r', q')"
    by (cases "input_thread_step (Some a) (rd s, queues s ! 0)") auto
  define s' where "s' = s\<lparr>rd := r', queues := (queues s)[0 := q']\<rparr>"
  from st have s': "step ps (Reader (Some a)) s = s'" by (simp add: step_def s'_def)
  from ne s' have "(r', q') \<noteq> (rd s, queues s ! 0)" by (auto simp: s'_def)
  with reader_step_work [OF st, of "item_weight ?N 0"]
  have loc: "reader_weight (item_weight ?N 0) r' + item_weight ?N 0 * size q'
      < reader_weight (item_weight ?N 0) (rd s) + item_weight ?N 0 * size (queues s ! 0)"
    by blast
  have q0: "queues s' ! 0 = q'" using len by (simp add: s'_def)
  have "pot ?N s' ?N + item_weight ?N 0 * size (queues s ! 0)
      = pot ?N s ?N + item_weight ?N 0 * size q'"
    by (rule pot_above [of 0]) (simp_all add: pot_def q0, simp_all add: s'_def)
  with loc have "reader_weight (item_weight ?N 0) r' + pot ?N s' ?N
      < reader_weight (item_weight ?N 0) (rd s) + pot ?N s ?N"
    by linarith
  then show ?thesis by (simp add: s' work_def) (simp add: s'_def)
qed

lemma worker_work:
  assumes inv: "pipeline_inv ps inp s" and ne: "step ps (Worker j (Some a) (Some a2)) s \<noteq> s"
  shows "work ps (step ps (Worker j (Some a) (Some a2)) s) < work ps s"
proof -
  let ?N = "length ps"
  let ?e = "Worker j (Some a) (Some a2)"
  note len = inv_lengths [OF inv]
  from ne len have j: "j < ?N" by (auto simp: step_def split: if_splits)
  obtain w' inq' outq' where st:
    "process_thread_step (ps ! j) (Some a) (Some a2) (workers s ! j, queues s ! j, queues s ! Suc j)
       = (w', inq', outq')"
    by (cases "process_thread_step (ps ! j) (Some a) (Some a2)
        (workers s ! j, queues s ! j, queues s ! Suc j)") auto
  define s' where "s' = s\<lparr>workers := (workers s)[j := w'],
      queues := (queues s)[j := inq', Suc j := outq']\<rparr>"
  from st j len have s': "step ps ?e s = s'" by (simp add: step_def s'_def)
  have same: "s' = s" if "(w', inq', outq') = (workers s ! j, queues s ! j, queues s ! Suc j)"
    using that by (simp add: s'_def)
  from ne s' same have neq: "(w', inq', outq') \<noteq> (workers s ! j, queues s ! j, queues s ! Suc j)"
    by blast
  have ok: "worker_ok (workers s ! j)"
  proof (cases "late_inv ps inp s")
    case True
    with j have "wpc (workers s ! j) = W_Exit" by (simp add: late_inv_def)
    with st have "(w', inq', outq') = (workers s ! j, queues s ! j, queues s ! Suc j)"
      by (simp add: process_thread_step_def)
    with neq show ?thesis by simp
  next
    case False
    with inv j show ?thesis by (auto simp: pipeline_inv_def early_inv_def)
  qed
  define wa where "wa = item_weight ?N j"
  define wb where "wb = item_weight ?N (Suc j)"
  from j have ab: "wa = wb + 5" by (simp add: wa_def wb_def item_weight_def Suc_diff_Suc)
  define X where "X = wa * size (queues s ! j) + worker_weight wa (workers s ! j)
      + wb * size (queues s ! Suc j)"
  define X' where "X' = wa * size inq' + worker_weight wa w' + wb * size outq'"
  from worker_step_work [OF st ok ab] neq have loc: "X' < X"
    unfolding X_def X'_def by blast
  have qj: "queues s' ! j = inq'" and qj1: "queues s' ! Suc j = outq'"
    using len j by (simp_all add: s'_def)
  have qk: "queues s' ! i = queues s ! i" if "i \<noteq> j" "i \<noteq> Suc j" for i
    using that by (simp add: s'_def)
  have wj: "workers s' ! j = w'" using len j by (simp add: s'_def)
  have wk: "workers s' ! i = workers s ! i" if "i \<noteq> j" for i using that by (simp add: s'_def)
  have fr: "rd s' = rd s" "wr s' = wr s" "mpc s' = mpc s" by (simp_all add: s'_def)
  have b: "base ?N s' j = base ?N s j"
    by (rule base_cong) (simp_all add: qk wk)
  have "pot ?N s' (Suc j) = base ?N s j + X'"
    by (simp add: pot_def qj qj1 wj b X'_def wa_def wb_def)
  moreover have "pot ?N s (Suc j) = base ?N s j + X"
    by (simp add: pot_def X_def wa_def wb_def)
  ultimately have pj1: "pot ?N s' (Suc j) + X = pot ?N s (Suc j) + X'" by simp
  have "pot ?N s' ?N + X = pot ?N s ?N + X'"
  proof (rule pot_above [OF _ pj1])
    show "Suc j \<le> ?N" using j by simp
    show "size (queues s' ! i) = size (queues s ! i)" if "Suc j < i" "i \<le> ?N" for i
      using that by (simp add: qk)
    show "worker_weight c (workers s' ! i) = worker_weight c (workers s ! i)"
      if "Suc j \<le> i" "i < ?N" for i c
      using that by (simp add: wk)
  qed
  with loc have "pot ?N s' ?N < pot ?N s ?N" by linarith
  then show ?thesis unfolding s' work_def fr by simp
qed

lemma writer_work:
  assumes inv: "pipeline_inv ps inp s" and ne: "step ps Writer s \<noteq> s"
  shows "work ps (step ps Writer s) < work ps s"
proof -
  let ?N = "length ps"
  note len = inv_lengths [OF inv]
  obtain ow' q' where st: "output_thread_step (wr s, queues s ! ?N) = (ow', q')"
    by (cases "output_thread_step (wr s, queues s ! ?N)") auto
  define s' where "s' = s\<lparr>wr := ow', queues := (queues s)[?N := q']\<rparr>"
  from st len have s': "step ps Writer s = s'" by (simp add: step_def s'_def)
  from ne s' have "(ow', q') \<noteq> (wr s, queues s ! ?N)" by (auto simp: s'_def)
  with writer_step_work [OF st]
  have loc: "writer_weight ow' + size q' < writer_weight (wr s) + size (queues s ! ?N)" by blast
  have qN: "queues s' ! ?N = q'" using len by (simp add: s'_def)
  have b: "base ?N s' ?N = base ?N s ?N"
    by (rule base_cong) (simp_all add: s'_def)
  have "pot ?N s' ?N + size (queues s ! ?N) = pot ?N s ?N + size q'"
    by (simp add: pot_def qN b item_weight_def)
  with loc have "writer_weight ow' + pot ?N s' ?N < writer_weight (wr s) + pot ?N s ?N"
    by linarith
  then show ?thesis by (simp add: s' work_def) (simp add: s'_def)
qed

lemma held_stop [simp]:
  "held_in (w\<lparr>stop_requested := b\<rparr>) = held_in w" "held_out (w\<lparr>stop_requested := b\<rparr>) = held_out w"
  by (simp_all add: held_in_def held_out_def)

lemma worker_weight_stop:
  "worker_weight a (ws[i := (ws ! i)\<lparr>stop_requested := True\<rparr>] ! k) = worker_weight a (ws ! k)"
  by (rule nth_update_same) (simp add: worker_weight_def)

lemma size_shutdown_upd:
  "size (qs[i := snd (queue_shutdown (qs ! i))] ! k) = size (qs ! k)"
  by (rule nth_update_same) (simp add: queue_shutdown_def)

lemma main_step_frame:
  "rd (main_step s) = rd s" "wr (main_step s) = wr s"
  "size (queues (main_step s) ! i) = size (queues s ! i)"
  "worker_weight a (workers (main_step s) ! i) = worker_weight a (workers s ! i)"
proof -
  show "rd (main_step s) = rd s" "wr (main_step s) = wr s"
    by (cases "mpc s"; simp add: main_step_def)+
  show "size (queues (main_step s) ! i) = size (queues s ! i)"
    by (cases "mpc s") (simp_all add: main_step_def size_shutdown_upd)
  show "worker_weight a (workers (main_step s) ! i) = worker_weight a (workers s ! i)"
    by (cases "mpc s") (simp_all add: main_step_def worker_weight_stop)
qed

lemma main_weight_step:
  assumes "main_step s \<noteq> s" and "length (workers s) = n"
    and "main_ok n (mpc s) \<or> mpc s = M_JoinInput \<or> mpc s = M_JoinOutput"
  shows "main_weight n (mpc (main_step s)) < main_weight n (mpc s)"
proof (cases "mpc s")
  case M_JoinInput
  with assms show ?thesis by (simp add: main_step_def split: if_splits)
next
  case M_JoinOutput
  with assms show ?thesis by (simp add: main_step_def split: if_splits)
next
  case (M_Stop i)
  with assms have "i < n" by simp
  with M_Stop assms(2) show ?thesis by (auto simp: main_step_def)
next
  case (M_DestroyFlag i)
  with assms show ?thesis by (simp add: main_step_def)
next
  case (M_DestroyShutdown i)
  with assms show ?thesis by (simp add: main_step_def)
next
  case (M_DestroyJoin i)
  with assms show ?thesis by (simp add: main_step_def split: if_splits)
next
  case M_Cleanup
  with assms show ?thesis by (simp add: main_step_def)
next
  case (M_Return c)
  with assms show ?thesis by (simp add: main_step_def)
qed

lemma main_work:
  assumes inv: "pipeline_inv ps inp s" and ne: "step ps Main s \<noteq> s"
  shows "work ps (step ps Main s) < work ps s"
proof -
  let ?N = "length ps"
  note len = inv_lengths [OF inv]
  have p: "pot ?N (main_step s) ?N = pot ?N s ?N"
    by (rule pot_cong) (simp_all add: main_step_frame)
  from inv have "main_ok ?N (mpc s) \<or> mpc s = M_JoinInput \<or> mpc s = M_JoinOutput"
    by (auto simp: pipeline_inv_def late_inv_def)
  with ne len have "main_weight ?N (mpc (main_step s)) < main_weight ?N (mpc s)"
    by (intro main_weight_step) (simp_all add: step_def)
  with p show ?thesis by (simp add: work_def step_def main_step_frame)
qed

lemma step_work:
  assumes "pipeline_inv ps inp s" "alloc_ok e" "step ps e s \<noteq> s"
  shows "work ps (step ps e s) < work ps s"
proof (cases e)
  case (Reader m)
  with assms(2) obtain a where "e = Reader (Some a)" by auto
  with assms reader_work show ?thesis by simp
next
  case (Worker j m m2)
  with assms(2) obtain a a2 where "e = Worker j (Some a) (Some a2)" by auto
  with assms worker_work show ?thesis by simp
next
  case Writer
  with assms writer_work show ?thesis by simp
next
  case Main
  with assms main_work show ?thesis by simp
qed

text \<open>number of steps of a schedule that change the state\<close>

lemma progress_bounded:
  "pipeline_inv ps inp s \<Longrightarrow> \<forall>e \<in> set sched. alloc_ok e \<Longrightarrow>
     progress_count ps sched s + work ps (run ps sched s) \<le> work ps s"
proof (induction sched arbitrary: s)
  case Nil
  then show ?case by simp
next
  case (Cons e es)
  from Cons.prems have inv': "pipeline_inv ps inp (step ps e s)" by (simp add: step_inv)
  from Cons.IH [OF inv'] Cons.prems
  have ih: "progress_count ps es (step ps e s) + work ps (run ps es (step ps e s))
      \<le> work ps (step ps e s)" by simp
  show ?case
  proof (cases "step ps e s = s")
    case True
    with ih show ?thesis by simp
  next
    case False
    with step_work [OF Cons.prems(1)] Cons.prems(2) have "work ps (step ps e s) < work ps s"
      by simp
    with ih False show ?thesis by simp
  qed
qed

lemma run_append: "run ps (xs @ ys) s = run ps ys (run ps xs s)"
  by (induction xs arbitrary: s) simp_all

lemma can_finish:
  "pipeline_inv ps inp s \<Longrightarrow>
     \<exists>more. (\<forall>e \<in> set more. alloc_ok e) \<and> mpc (run ps more s) = M_Return 0"
proof (induction "work ps s" arbitrary: s rule: less_induct)
  case less
  show ?case
  proof (cases "mpc s = M_Return 0")
    case True
    then show ?thesis by (intro exI [of _ "[]"]) simp
  next
    case False
    from no_deadlock [OF less.prems False] obtain e where e: "alloc_ok e" "step ps e s \<noteq> s"
      by blast
    from step_work [OF less.prems e] step_inv [OF less.prems e(1)] less.hyps
    obtain more where "\<forall>e \<in> set more. alloc_ok e" "mpc (run ps more (step ps e s)) = M_Return 0"
      by blast
    with e(1) show ?thesis by (intro exI [of _ "e # more"]) simp
  qed
qed

subsection \<open>The end-to-end claim\<close>

text \<open>On well-formed input the reader passes on the lines as they are and meets the
  sentinel.\<close>

lemma unlines_Cons_app: "unlines (l # ls) @ x = l @ CHR 0x0A # (unlines ls @ x)"
  by (simp add: unlines_def)

lemma sentinel_line: "read_line (''<END>'' @ CHR 0x0A # rest) = Some (''<END>'', rest)"
  by (rule read_line_short) simp_all

lemma wf_input:
  assumes "\<forall>l \<in> set ls. wf_line l"
  shows "input_lines (unlines ls @ ''<END>'' @ CHR 0x0A # rest) = ls \<and>
         input_ends (unlines ls @ ''<END>'' @ CHR 0x0A # rest)"
  using assms
proof (induction ls)
  case Nil
  have "input_lines (''<END>'' @ CHR 0x0A # rest) = []"
    by (subst input_lines_unfold) (simp only: sentinel_line option.case prod.case simp_thms if_True)
  moreover have "input_ends (''<END>'' @ CHR 0x0A # rest)"
    by (subst input_ends_unfold) (simp only: sentinel_line option.case prod.case simp_thms if_True)
  ultimately show ?case by (simp add: unlines_def)
next
  case (Cons l ls)
  let ?x = "''<END>'' @ CHR 0x0A # rest"
  from Cons.prems have wf: "CHR 0x0A \<notin> set l" "CHR 0x00 \<notin> set l" "length l < 1023"
    and ne: "l \<noteq> ''<END>''"
    by (simp_all add: wf_line_def)
  from read_line_short [OF wf] have r: "read_line (l @ CHR 0x0A # (unlines ls @ ?x))
      = Some (l, unlines ls @ ?x)" .
  have "input_lines (l @ CHR 0x0A # (unlines ls @ ?x)) = l # input_lines (unlines ls @ ?x)"
    by (subst input_lines_unfold) (simp only: r ne option.case prod.case if_False)
  moreover have "input_ends (l @ CHR 0x0A # (unlines ls @ ?x)) = input_ends (unlines ls @ ?x)"
    by (subst input_ends_unfold) (simp only: r ne option.case prod.case if_False)
  ultimately show ?case using Cons by (simp only: unlines_Cons_app) simp
qed

lemma hello_run:
  "stdout (wr (run [Upper] hello_schedule
      (pipeline_start [Upper] (''hello'' @ CHR 0x0A # ''<END>'' @ [CHR 0x0A]))))
     = ''Loaded plugin: upper'' @ CHR 0x0A # ''HELLO'' @ [CHR 0x0A] \<and>
   mpc (run [Upper] hello_schedule
      (pipeline_start [Upper] (''hello'' @ CHR 0x0A # ''<END>'' @ [CHR 0x0A]))) = M_Return 0"
  by code_simp

lemma hello_expected: "unlines (map (fold transform_bytes [Upper]) [''hello'']) = ''HELLO'' @ [CHR 0x0A]"
  by code_simp

text \<open>
  Claim C8 (end-to-end no-loss), as the code has it. The claim gives standard output as
  one line per input line and nothing else. Run on the one line \<^verbatim>\<open>hello\<close> and the
  sentinel, the one-stage pipeline returns 0 with two lines on standard output: main
  prints \<^verbatim>\<open>Loaded plugin: upper\<close> there with \<^verbatim>\<open>printf\<close> before any thread starts.
  And a line of 1023 bytes goes into the pipeline as two items, its 1023 bytes and an
  empty string, so it comes out as two lines.
\<close>

theorem end_to_end_counterexample:
  "mpc (run [Upper] hello_schedule
      (pipeline_start [Upper] (''hello'' @ CHR 0x0A # ''<END>'' @ [CHR 0x0A]))) = M_Return 0 \<and>
   stdout (wr (run [Upper] hello_schedule
      (pipeline_start [Upper] (''hello'' @ CHR 0x0A # ''<END>'' @ [CHR 0x0A]))))
     = ''Loaded plugin: upper'' @ CHR 0x0A # ''HELLO'' @ [CHR 0x0A] \<and>
   stdout (wr (run [Upper] hello_schedule
      (pipeline_start [Upper] (''hello'' @ CHR 0x0A # ''<END>'' @ [CHR 0x0A]))))
     \<noteq> unlines (map (fold transform_bytes [Upper]) [''hello'']) \<and>
   input_lines (replicate 1023 CHR ''a'' @ CHR 0x0A # ''<END>'' @ [CHR 0x0A])
     = [replicate 1023 CHR ''a'', []]"
proof -
  have h: "CHR 0x0A \<notin> set (replicate 1023 CHR ''a'') \<and> CHR 0x00 \<notin> set (replicate 1023 CHR ''a'') \<and>
      1023 \<le> length (replicate 1023 CHR ''a'')" by simp
  have e1: "input_lines (CHR 0x0A # ''<END>'' @ [CHR 0x0A]) = [[]]" by code_simp
  from input_lines_split [OF h, of "''<END>'' @ [CHR 0x0A]"] e1
  have "input_lines (replicate 1023 CHR ''a'' @ CHR 0x0A # ''<END>'' @ [CHR 0x0A])
     = [replicate 1023 CHR ''a'', []]" by simp
  with hello_run hello_expected show ?thesis by simp
qed

text \<open>
  Claim C8, amended: for main.c as build.sh writes it, once start-up has succeeded, with
  every allocation answered, on an input of lines shorter than 1023 bytes without NUL
  bytes, none of them the sentinel, followed by the sentinel line (what comes after it is
  never read). Whatever the scheduling: standard output is at every moment a beginning of
  the \<^verbatim>\<open>Loaded plugin:\<close> lines followed by one line per input line, in input order, each
  the composition of the stage transforms applied to that line; it is all of it once the
  writer has returned; main returns 0 only, and then with all of it written; as long as
  main has not returned some thread can take a step that changes the state (no deadlock);
  the schedule can be continued to the return of main; and the steps of a schedule that
  change the state are at most \<open>work\<close> of the start state (no livelock).
\<close>

theorem pipeline_end_to_end:
  assumes "ps \<noteq> []" and "\<forall>l \<in> set ls. wf_line l" and "\<forall>e \<in> set sched. alloc_ok e"
  shows
   "(\<exists>more. stdout (wr (run ps sched (pipeline_start ps (unlines ls @ ''<END>'' @ CHR 0x0A # rest)))) @ more
        = loaded_lines ps @ unlines (map (fold transform_bytes ps) ls)) \<and>
    (opc (wr (run ps sched (pipeline_start ps (unlines ls @ ''<END>'' @ CHR 0x0A # rest)))) = O_Exit \<longrightarrow>
       stdout (wr (run ps sched (pipeline_start ps (unlines ls @ ''<END>'' @ CHR 0x0A # rest))))
        = loaded_lines ps @ unlines (map (fold transform_bytes ps) ls)) \<and>
    (\<forall>c. mpc (run ps sched (pipeline_start ps (unlines ls @ ''<END>'' @ CHR 0x0A # rest))) = M_Return c \<longrightarrow>
       c = 0 \<and>
       stdout (wr (run ps sched (pipeline_start ps (unlines ls @ ''<END>'' @ CHR 0x0A # rest))))
        = loaded_lines ps @ unlines (map (fold transform_bytes ps) ls)) \<and>
    (mpc (run ps sched (pipeline_start ps (unlines ls @ ''<END>'' @ CHR 0x0A # rest))) \<noteq> M_Return 0 \<longrightarrow>
       (\<exists>e. alloc_ok e \<and>
          step ps e (run ps sched (pipeline_start ps (unlines ls @ ''<END>'' @ CHR 0x0A # rest)))
            \<noteq> run ps sched (pipeline_start ps (unlines ls @ ''<END>'' @ CHR 0x0A # rest)))) \<and>
    (\<exists>more. (\<forall>e \<in> set more. alloc_ok e) \<and>
       mpc (run ps more (run ps sched (pipeline_start ps (unlines ls @ ''<END>'' @ CHR 0x0A # rest))))
         = M_Return 0) \<and>
    progress_count ps sched (pipeline_start ps (unlines ls @ ''<END>'' @ CHR 0x0A # rest))
      \<le> work ps (pipeline_start ps (unlines ls @ ''<END>'' @ CHR 0x0A # rest))"
proof -
  let ?inp = "unlines ls @ ''<END>'' @ CHR 0x0A # rest"
  let ?init = "pipeline_start ps ?inp"
  let ?s = "run ps sched ?init"
  from wf_input [OF assms(2), of rest]
  have il: "input_lines ?inp = ls" and ie: "input_ends ?inp" by simp_all
  have ex: "expected_output ps ?inp = loaded_lines ps @ unlines (map (fold transform_bytes ps) ls)"
    by (simp only: expected_output_def il)
  note i0 = start_inv [OF ie, of ps]
  note i = run_inv [OF i0 assms(3)]
  note out = inv_output [OF i, unfolded ex]
  have 1: "\<exists>more. stdout (wr ?s) @ more = loaded_lines ps @ unlines (map (fold transform_bytes ps) ls)"
    by (rule out(1))
  have 2: "opc (wr ?s) = O_Exit \<longrightarrow>
      stdout (wr ?s) = loaded_lines ps @ unlines (map (fold transform_bytes ps) ls)"
    using out(2) by blast
  have 3: "\<forall>c. mpc ?s = M_Return c \<longrightarrow>
      c = 0 \<and> stdout (wr ?s) = loaded_lines ps @ unlines (map (fold transform_bytes ps) ls)"
    using out(3) by blast
  have 4: "mpc ?s \<noteq> M_Return 0 \<longrightarrow> (\<exists>e. alloc_ok e \<and> step ps e ?s \<noteq> ?s)"
    using no_deadlock [OF i] by blast
  have 5: "\<exists>more. (\<forall>e \<in> set more. alloc_ok e) \<and> mpc (run ps more ?s) = M_Return 0"
    by (rule can_finish [OF i])
  have 6: "progress_count ps sched ?init \<le> work ps ?init"
    using progress_bounded [OF i0 assms(3)] by simp
  from 1 2 3 4 5 6 show ?thesis by (intro conjI)
qed

theorem pipeline_end_to_end_witness:
  "[Upper] \<noteq> [] \<and> wf_line ''hello'' \<and> list_all alloc_ok hello_schedule \<and>
   unlines [''hello''] @ ''<END>'' @ CHR 0x0A # [] = ''hello'' @ CHR 0x0A # ''<END>'' @ [CHR 0x0A] \<and>
   mpc (run [Upper] hello_schedule (pipeline_start [Upper] (unlines [''hello''] @ ''<END>'' @ CHR 0x0A # [])))
     = M_Return 0 \<and>
   stdout (wr (run [Upper] hello_schedule (pipeline_start [Upper] (unlines [''hello''] @ ''<END>'' @ CHR 0x0A # []))))
     = loaded_lines [Upper] @ unlines (map (fold transform_bytes [Upper]) [''hello'']) \<and>
   loaded_lines [Upper] @ unlines (map (fold transform_bytes [Upper]) [''hello''])
     = ''Loaded plugin: upper'' @ CHR 0x0A # ''HELLO'' @ [CHR 0x0A]"
proof -
  have w: "\<forall>l \<in> set [''hello'']. wf_line l" by (simp add: wf_line_def)
  have a: "\<forall>e \<in> set hello_schedule. alloc_ok e" by (simp add: hello_schedule_def)
  have n: "[Upper] \<noteq> []" by simp
  have u: "unlines [''hello''] @ ''<END>'' @ CHR 0x0A # [] = ''hello'' @ CHR 0x0A # ''<END>'' @ [CHR 0x0A]"
    by (simp add: unlines_def)
  have l: "loaded_lines [Upper] = ''Loaded plugin: upper'' @ [CHR 0x0A]"
    by (simp add: loaded_lines_def)
  from pipeline_end_to_end [OF n w a, of "[]"] hello_run w a u l hello_expected
  show ?thesis by (simp add: list_all_iff)
qed


end
